theory Spec2Isabelle
  imports Main "HOL-Library.Multiset"
begin

unbundle bit_operations_syntax

section \<open>Data model\<close>

text \<open>
  Coordinates are pairs of Python integers \<open>(row, col)\<close>.  The grid is a list of rows of
  characters: \<open>#\<close> wall, blank open, \<open>S\<close> start, \<open>G\<close> goal.
\<close>

type_synonym coord = "int \<times> int"
type_synonym grid = "char list list"

text \<open>
  The exceptions of the code.  \<open>search.py\<close> raises \<open>Exception("No solution")\<close>
  (\<open>NoSolution\<close>), the frontier classes of \<open>util.py\<close> raise \<open>Exception("empty frontier")\<close>
  (\<open>EmptyFrontier\<close>); \<open>IndexError\<close> and \<open>ValueError\<close> are the exceptions of list indexing
  and of \<open>random.randrange\<close> on an empty range.
\<close>

datatype error = NoSolution | EmptyFrontier | IndexError | ValueError

datatype action = Left | Right | Up | Down

text \<open>
  \<open>util.Node\<close> and \<open>util.CostNode\<close>: the two classes differ in the \<open>cost\<close> field only, so
  one datatype with the payload \<open>'c\<close> models both (\<open>unit\<close> for \<open>Node\<close>, \<open>int\<close> for \<open>CostNode\<close>).
  The root has no parent and no action.
\<close>

datatype 'c node = Node (state: coord) (parent: "'c node option") (action: "action option") (cost: 'c)

type_synonym plain_node = "unit node"
type_synonym cost_node = "int node"

text \<open>The \<open>Maze\<close> object after its constructor has run.\<close>

record Maze =
  rows :: int
  cols :: int
  maze :: grid
  start :: coord
  goal :: coord

section \<open>Python list indexing\<close>

text \<open>\<open>xs[i]\<close>: a negative index counts from the end, anything else out of range raises.\<close>

definition py_index :: "nat \<Rightarrow> int \<Rightarrow> error + nat" where
  "py_index n i =
     (if 0 \<le> i \<and> i < int n then Inr (nat i)
      else if - int n \<le> i \<and> i < 0 then Inr (nat (int n + i))
      else Inl IndexError)"

text \<open>\<open>g[r][c]\<close> and \<open>g[r][c] = v\<close>.\<close>

definition get_cell :: "grid \<Rightarrow> int \<Rightarrow> int \<Rightarrow> error + char" where
  "get_cell g r c =
     (case py_index (length g) r of
        Inl e \<Rightarrow> Inl e
      | Inr i \<Rightarrow> (case py_index (length (g ! i)) c of
                    Inl e \<Rightarrow> Inl e
                  | Inr j \<Rightarrow> Inr (g ! i ! j)))"

definition set_cell :: "grid \<Rightarrow> int \<Rightarrow> int \<Rightarrow> char \<Rightarrow> error + grid" where
  "set_cell g r c v =
     (case py_index (length g) r of
        Inl e \<Rightarrow> Inl e
      | Inr i \<Rightarrow> (case py_index (length (g ! i)) c of
                    Inl e \<Rightarrow> Inl e
                  | Inr j \<Rightarrow> Inr (g[i := (g ! i)[j := v]])))"

section \<open>Grid model: \<open>Maze.get_goal\<close>, \<open>Maze.get_next\<close>\<close>

definition get_goal :: "Maze \<Rightarrow> coord" where
  "get_goal m = goal m"

text \<open>The dictionary \<open>moves\<close> of \<open>get_next\<close>, in its insertion order.\<close>

definition moves :: "(action \<times> (int \<times> int)) list" where
  "moves = [(Left, (0, -1)), (Right, (0, 1)), (Up, (-1, 0)), (Down, (1, 0))]"

text \<open>
  The \<open>for\<close> loop of \<open>get_next\<close>: the bounds are tested against \<open>self.rows\<close> and
  \<open>self.cols\<close> before the grid is read (\<open>and\<close> short-circuits); the read itself raises
  when the stored grid is smaller than the stored dimensions.
\<close>

fun get_next_loop ::
  "Maze \<Rightarrow> coord \<Rightarrow> (action \<times> (int \<times> int)) list \<Rightarrow> (action \<times> coord) list
     \<Rightarrow> error + (action \<times> coord) list" where
  "get_next_loop m st [] next_nodes = Inr next_nodes"
| "get_next_loop m st ((a, (dr, dc)) # ms) next_nodes =
     (let next_row = fst st + dr; next_col = snd st + dc in
      if 0 \<le> next_row \<and> next_row < rows m \<and> 0 \<le> next_col \<and> next_col < cols m
      then (case get_cell (maze m) next_row next_col of
              Inl e \<Rightarrow> Inl e
            | Inr ch \<Rightarrow>
                if ch \<noteq> CHR ''#''
                then get_next_loop m st ms (next_nodes @ [(a, (next_row, next_col))])
                else get_next_loop m st ms next_nodes)
      else get_next_loop m st ms next_nodes)"

definition get_next :: "Maze \<Rightarrow> 'c node \<Rightarrow> error + (action \<times> coord) list" where
  "get_next m nd = get_next_loop m (state nd) moves []"

section \<open>Frontiers (\<open>util.py\<close>)\<close>

text \<open>
  A frontier object is its list \<open>self.frontier\<close>.  \<open>QueueFrontier\<close> inherits \<open>add\<close>,
  \<open>contains_state\<close> and \<open>empty\<close> from \<open>StackFrontier\<close> and overrides \<open>remove\<close>;
  \<open>PriorityQueueFrontier\<close> inherits \<open>remove\<close> from \<open>QueueFrontier\<close> and overrides \<open>add\<close>.
  \<open>remove\<close> returns the node together with the remaining list.
\<close>

definition StackFrontier_add :: "'c node list \<Rightarrow> 'c node \<Rightarrow> 'c node list" where
  "StackFrontier_add fr nd = fr @ [nd]"

definition contains_state :: "'c node list \<Rightarrow> coord \<Rightarrow> bool" where
  "contains_state fr st = list_ex (\<lambda>nd. state nd = st) fr"

definition frontier_empty :: "'c node list \<Rightarrow> bool" where
  "frontier_empty fr = (length fr = 0)"

definition StackFrontier_remove :: "'c node list \<Rightarrow> error + ('c node \<times> 'c node list)" where
  "StackFrontier_remove fr =
     (if frontier_empty fr then Inl EmptyFrontier else Inr (last fr, butlast fr))"

definition QueueFrontier_remove :: "'c node list \<Rightarrow> error + ('c node \<times> 'c node list)" where
  "QueueFrontier_remove fr =
     (if frontier_empty fr then Inl EmptyFrontier else Inr (hd fr, tl fr))"

text \<open>\<open>list.sort(key=...)\<close> is a stable sort, as \<open>sort_key\<close> is.\<close>

definition PriorityQueueFrontier_add ::
  "('c node \<Rightarrow> coord \<Rightarrow> int) \<Rightarrow> coord \<Rightarrow> 'c node list \<Rightarrow> 'c node \<Rightarrow> 'c node list" where
  "PriorityQueueFrontier_add func gl fr nd = sort_key (\<lambda>n. func n gl) (fr @ [nd])"

definition manhattan_distance :: "'c node \<Rightarrow> coord \<Rightarrow> int" where
  "manhattan_distance nd gl = \<bar>fst (state nd) - fst gl\<bar> + \<bar>snd (state nd) - snd gl\<bar>"

definition cumulative_cost_function :: "cost_node \<Rightarrow> coord \<Rightarrow> int" where
  "cumulative_cost_function nd gl = manhattan_distance nd gl + cost nd"

section \<open>Search (\<open>search.py\<close>)\<close>

text \<open>
  The four search functions share one loop body, word for word; they differ in the
  frontier class, in the node class, and in whether the goal is read once before the loop
  or in every iteration.  The loop body is \<open>search_step\<close> with these as parameters.
  The maze object is part of the state that an iteration receives and hands on.
\<close>

record 'c search_state =
  the_maze :: Maze
  frontier :: "'c node list"
  explored_states :: "coord set"
  explored :: "coord list"

type_synonym search_result = "(action option \<times> coord) list \<times> coord list"

datatype ('s, 'r) outcome = Continue 's | Return 'r

text \<open>The inner \<open>while node.parent is not None\<close> loop that collects the path.\<close>

fun path_loop :: "'c node \<Rightarrow> (action option \<times> coord) list \<Rightarrow> (action option \<times> coord) list" where
  "path_loop (Node st None a c) path = path"
| "path_loop (Node st (Some p) a c) path = path_loop p (path @ [(a, st)])"

text \<open>The \<open>for action, state in maze.get_next(node)\<close> loop.\<close>

fun expand ::
  "('c node list \<Rightarrow> 'c node \<Rightarrow> 'c node list) \<Rightarrow> ('c \<Rightarrow> 'c) \<Rightarrow> 'c node \<Rightarrow> coord set
     \<Rightarrow> (action \<times> coord) list \<Rightarrow> 'c node list \<Rightarrow> 'c node list" where
  "expand add child_cost nd es [] fr = fr"
| "expand add child_cost nd es ((a, st) # rest) fr =
     (if \<not> contains_state fr st \<and> st \<notin> es
      then expand add child_cost nd es rest
             (add fr (Node st (Some nd) (Some a) (child_cost (cost nd))))
      else expand add child_cost nd es rest fr)"

definition search_step ::
  "('c node list \<Rightarrow> 'c node \<Rightarrow> 'c node list) \<Rightarrow> ('c node list \<Rightarrow> error + ('c node \<times> 'c node list))
     \<Rightarrow> ('c \<Rightarrow> 'c) \<Rightarrow> (Maze \<Rightarrow> coord) \<Rightarrow> 'c search_state
     \<Rightarrow> ('c search_state, (error + search_result) \<times> Maze) outcome" where
  "search_step add remove child_cost goal_of s =
     (if frontier_empty (frontier s) then Return (Inl NoSolution, the_maze s)
      else case remove (frontier s) of
        Inl e \<Rightarrow> Return (Inl e, the_maze s)
      | Inr (nd, fr) \<Rightarrow>
          if state nd = goal_of (the_maze s)
          then Return (Inr (butlast (rev (path_loop nd [])), tl (explored s)), the_maze s)
          else (case get_next (the_maze s) nd of
                  Inl e \<Rightarrow> Return (Inl e, the_maze s)
                | Inr nxt \<Rightarrow>
                    Continue (s\<lparr>frontier := expand add child_cost nd (insert (state nd) (explored_states s)) nxt fr,
                                explored_states := insert (state nd) (explored_states s),
                                explored := explored s @ [state nd]\<rparr>)))"

text \<open>\<open>while True\<close>: the loop may fail to return, which is the value \<open>None\<close>.\<close>

partial_function (option) search_loop ::
  "('c node list \<Rightarrow> 'c node \<Rightarrow> 'c node list) \<Rightarrow> ('c node list \<Rightarrow> error + ('c node \<times> 'c node list))
     \<Rightarrow> ('c \<Rightarrow> 'c) \<Rightarrow> (Maze \<Rightarrow> coord) \<Rightarrow> 'c search_state
     \<Rightarrow> ((error + search_result) \<times> Maze) option" where
  "search_loop add remove child_cost goal_of s =
     (case search_step add remove child_cost goal_of s of
        Return r \<Rightarrow> Some r
      | Continue s' \<Rightarrow> search_loop add remove child_cost goal_of s')"

declare search_loop.simps [code]

definition init_state ::
  "('c node list \<Rightarrow> 'c node \<Rightarrow> 'c node list) \<Rightarrow> 'c \<Rightarrow> coord \<Rightarrow> Maze \<Rightarrow> 'c search_state" where
  "init_state add c0 st m =
     \<lparr>the_maze = m, frontier = add [] (Node st None None c0), explored_states = {}, explored = []\<rparr>"

definition breadth_first_search :: "coord \<Rightarrow> Maze \<Rightarrow> ((error + search_result) \<times> Maze) option" where
  "breadth_first_search st m =
     search_loop StackFrontier_add QueueFrontier_remove (\<lambda>u. u) get_goal
       (init_state StackFrontier_add () st m)"

definition depth_first_search :: "coord \<Rightarrow> Maze \<Rightarrow> ((error + search_result) \<times> Maze) option" where
  "depth_first_search st m =
     search_loop StackFrontier_add StackFrontier_remove (\<lambda>u. u) get_goal
       (init_state StackFrontier_add () st m)"

definition greedy_first_search :: "coord \<Rightarrow> Maze \<Rightarrow> ((error + search_result) \<times> Maze) option" where
  "greedy_first_search st m =
     (let gl = get_goal m; func = manhattan_distance in
      search_loop (PriorityQueueFrontier_add func gl) QueueFrontier_remove (\<lambda>u. u) (\<lambda>_. gl)
        (init_state (PriorityQueueFrontier_add func gl) () st m))"

definition astar_first_search :: "coord \<Rightarrow> Maze \<Rightarrow> ((error + search_result) \<times> Maze) option" where
  "astar_first_search st m =
     (let gl = get_goal m; func = cumulative_cost_function in
      search_loop (PriorityQueueFrontier_add func gl) QueueFrontier_remove (\<lambda>c. c + 1) (\<lambda>_. gl)
        (init_state (PriorityQueueFrontier_add func gl) 0 st m))"

section \<open>Maze generation (\<open>maze.py\<close>)\<close>

text \<open>
  The random source.  \<open>start_row_pick\<close> and \<open>start_col_pick\<close> are the numbers from which the
  two \<open>random.randrange\<close> calls take their result, and \<open>dir_key k j\<close> is the sort key drawn
  for the \<open>j\<close>-th direction in the \<open>k\<close>-th iteration of the carving loop (the value of
  \<open>random.random() + 0.2 * random.randint(0, 1)\<close>; only the order of the keys matters).
\<close>

record choices =
  start_row_pick :: nat
  start_col_pick :: nat
  dir_key :: "nat \<Rightarrow> nat \<Rightarrow> nat"

text \<open>
  \<open>random.randrange(start, stop, step)\<close> for a positive step: one of the
  \<open>(stop - start + step - 1) // step\<close> values \<open>start, start + step, ...\<close> below \<open>stop\<close>, and
  \<open>ValueError\<close> when there is none.
\<close>

definition randrange :: "int \<Rightarrow> int \<Rightarrow> int \<Rightarrow> nat \<Rightarrow> error + int" where
  "randrange lo hi step pick =
     (let n = (hi - lo + step - 1) div step in
      if n \<le> 0 then Inl ValueError else Inr (lo + step * (int pick mod n)))"

definition directions :: "(int \<times> int) list" where
  "directions = [(0, 1), (1, 0), (0, -1), (-1, 0)]"

text \<open>\<open>sorted(directions, key=...)\<close>: one key per direction, stable sort by the keys.\<close>

definition biased_dirs :: "(nat \<Rightarrow> nat) \<Rightarrow> (int \<times> int) list" where
  "biased_dirs key =
     map fst (sort_key snd (zip directions (map key [0..<length directions])))"

text \<open>The \<open>for dr, dc in biased_dirs\<close> loop of one iteration, for the popped cell \<open>(r, c)\<close>.\<close>

fun carve_dirs ::
  "int \<Rightarrow> int \<Rightarrow> int \<Rightarrow> int \<Rightarrow> (int \<times> int) list \<Rightarrow> grid \<Rightarrow> coord list
     \<Rightarrow> error + (grid \<times> coord list)" where
  "carve_dirs rws cls r c [] g stack = Inr (g, stack)"
| "carve_dirs rws cls r c ((dr, dc) # ds) g stack =
     (let nr = r + dr * 2; nc = c + dc * 2 in
      if 0 \<le> nr \<and> nr < rws \<and> 0 \<le> nc \<and> nc < cls
      then (case get_cell g nr nc of
              Inl e \<Rightarrow> Inl e
            | Inr ch \<Rightarrow>
                if ch = CHR ''#''
                then (case set_cell g (r + dr) (c + dc) CHR '' '' of
                        Inl e \<Rightarrow> Inl e
                      | Inr g1 \<Rightarrow>
                          (case set_cell g1 nr nc CHR '' '' of
                             Inl e \<Rightarrow> Inl e
                           | Inr g2 \<Rightarrow> carve_dirs rws cls r c ds g2 (stack @ [(nr, nc)])))
                else carve_dirs rws cls r c ds g stack)
      else carve_dirs rws cls r c ds g stack)"

text \<open>The number of wall cells of a grid: what the carving loop uses up.\<close>

definition count_walls :: "grid \<Rightarrow> nat" where
  "count_walls g = (\<Sum>row\<leftarrow>g. length (filter (\<lambda>ch. ch = CHR ''#'') row))"


lemma py_index_bound: "py_index n i = Inr k \<Longrightarrow> k < n"
  by (auto simp: py_index_def split: if_splits)

lemma count_row_update:
  assumes "j < length row" "v \<noteq> CHR ''#''"
  shows "length (filter (\<lambda>ch. ch = CHR ''#'') (row[j := v])) + (if row ! j = CHR ''#'' then 1 else 0)
     = length (filter (\<lambda>ch. ch = CHR ''#'') row)"
  using assms
proof (induction row arbitrary: j)
  case Nil then show ?case by simp
next
  case (Cons a row)
  then show ?case by (cases j) auto
qed

lemma count_walls_update:
  assumes "i < length g" "j < length (g ! i)" "v \<noteq> CHR ''#''"
  shows "count_walls (g[i := (g ! i)[j := v]]) + (if g ! i ! j = CHR ''#'' then 1 else 0) = count_walls g"
  using assms
proof (induction g arbitrary: i)
  case Nil then show ?case by simp
next
  case (Cons row g)
  show ?case
  proof (cases i)
    case 0
    then show ?thesis using Cons.prems count_row_update[of j row v]
      by (auto simp: count_walls_def)
  next
    case (Suc k)
    then show ?thesis using Cons.prems Cons.IH[of k]
      by (auto simp: count_walls_def)
  qed
qed

lemma set_cell_count_le:
  assumes "set_cell g r c v = Inr g1" "v \<noteq> CHR ''#''"
  shows "count_walls g1 \<le> count_walls g"
proof -
  from assms(1) obtain i j where ij: "py_index (length g) r = Inr i" "py_index (length (g ! i)) c = Inr j"
    and g1: "g1 = g[i := (g ! i)[j := v]]"
    by (auto simp: set_cell_def split: sum.splits)
  from ij have "i < length g" "j < length (g ! i)" by (auto dest: py_index_bound)
  from count_walls_update[OF this assms(2)] g1 show ?thesis by (auto split: if_splits)
qed

lemma set_cell_keeps_wall:
  assumes "set_cell g r c v = Inr g1" "v \<noteq> CHR ''#''" "get_cell g r' c' = Inr CHR ''#''"
  shows "get_cell g1 r' c' = Inr CHR ''#'' \<or> count_walls g1 < count_walls g"
proof -
  from assms(1) obtain i j where ij: "py_index (length g) r = Inr i" "py_index (length (g ! i)) c = Inr j"
    and g1: "g1 = g[i := (g ! i)[j := v]]"
    by (auto simp: set_cell_def split: sum.splits)
  from ij have b: "i < length g" "j < length (g ! i)" by (auto dest: py_index_bound)
  from assms(3) obtain i' j' where ij': "py_index (length g) r' = Inr i'" "py_index (length (g ! i')) c' = Inr j'"
    and w: "g ! i' ! j' = CHR ''#''"
    by (auto simp: get_cell_def split: sum.splits)
  from ij' have b': "i' < length g" "j' < length (g ! i')" by (auto dest: py_index_bound)
  show ?thesis
  proof (cases "i' = i \<and> j' = j")
    case True
    with w count_walls_update[OF b assms(2)] g1 show ?thesis by auto
  next
    case False
    then have "get_cell g1 r' c' = Inr CHR ''#''"
      using ij' w b b' g1 by (auto simp: get_cell_def nth_list_update)
    then show ?thesis by simp
  qed
qed

lemma set_cell_wall_less:
  assumes "set_cell g r c v = Inr g1" "v \<noteq> CHR ''#''" "get_cell g r c = Inr CHR ''#''"
  shows "count_walls g1 < count_walls g"
proof -
  from assms(1) obtain i j where ij: "py_index (length g) r = Inr i" "py_index (length (g ! i)) c = Inr j"
    and g1: "g1 = g[i := (g ! i)[j := v]]"
    by (auto simp: set_cell_def split: sum.splits)
  from ij have b: "i < length g" "j < length (g ! i)" by (auto dest: py_index_bound)
  from assms(3) ij have "g ! i ! j = CHR ''#''" by (auto simp: get_cell_def)
  with count_walls_update[OF b assms(2)] g1 show ?thesis by auto
qed

lemma carve_dirs_measure:
  "carve_dirs rws cls r c ds g stack = Inr (g', stack') \<Longrightarrow>
     2 * count_walls g' + length stack' \<le> 2 * count_walls g + length stack"
proof (induction ds arbitrary: g stack)
  case Nil
  then show ?case by simp
next
  case (Cons d ds)
  obtain dr dc where d: "d = (dr, dc)" by (cases d)
  let ?nr = "r + dr * 2" and ?nc = "c + dc * 2"
  show ?case
  proof (cases "0 \<le> ?nr \<and> ?nr < rws \<and> 0 \<le> ?nc \<and> ?nc < cls \<and> get_cell g ?nr ?nc = Inr CHR ''#''")
    case True
    with Cons.prems d obtain g1 g2 where
      s1: "set_cell g (r + dr) (c + dc) CHR '' '' = Inr g1" and
      s2: "set_cell g1 ?nr ?nc CHR '' '' = Inr g2" and
      rest: "carve_dirs rws cls r c ds g2 (stack @ [(?nr, ?nc)]) = Inr (g', stack')"
      by (auto simp: Let_def split: sum.splits)
    have "count_walls g2 < count_walls g"
      using set_cell_keeps_wall[OF s1 _ conjunct2[OF conjunct2[OF conjunct2[OF conjunct2[OF True]]]]]
        set_cell_count_le[OF s1] set_cell_count_le[OF s2] set_cell_wall_less[OF s2]
      by fastforce
    with Cons.IH[OF rest] show ?thesis by simp
  next
    case False
    with Cons.prems d have "carve_dirs rws cls r c ds g stack = Inr (g', stack')"
      by (auto simp: Let_def split: sum.splits if_splits)
    from Cons.IH[OF this] show ?thesis .
  qed
qed

text \<open>
  The \<open>while stack\<close> loop: pop the last cell, shuffle the directions with the keys of this
  iteration, carve.  Every push turns a wall into an open cell, which bounds the loop.
\<close>

function carve_loop ::
  "int \<Rightarrow> int \<Rightarrow> (nat \<Rightarrow> nat \<Rightarrow> nat) \<Rightarrow> nat \<Rightarrow> grid \<Rightarrow> coord list \<Rightarrow> error + grid" where
  "carve_loop rws cls keys k g stack =
     (if stack = [] then Inr g
      else (case carve_dirs rws cls (fst (last stack)) (snd (last stack)) (biased_dirs (keys k)) g
                   (butlast stack) of
              Inl e \<Rightarrow> Inl e
            | Inr (g', stack') \<Rightarrow> carve_loop rws cls keys (Suc k) g' stack'))"
  by pat_completeness auto
termination
proof (relation "measure (\<lambda>(rws, cls, keys, k, g, stack). 2 * count_walls g + length stack)", goal_cases)
  case 1
  then show ?case by simp
next
  case (2 rws cls keys k g stack x2 g' stack')
  from 2 have "2 * count_walls g' + length stack' \<le> 2 * count_walls g + length (butlast stack)"
    by (intro carve_dirs_measure[of rws cls _ _ _ g "butlast stack" g' stack']) simp
  moreover from 2 have "length (butlast stack) < length stack" by simp
  ultimately show ?case by simp
qed


text \<open>The neighbour loop of \<open>find_farthest_point\<close>.\<close>

fun ffp_neighbours ::
  "grid \<Rightarrow> int \<Rightarrow> int \<Rightarrow> int \<Rightarrow> (int \<times> int) list \<Rightarrow> (int \<times> int \<times> int) list
     \<Rightarrow> error + (int \<times> int \<times> int) list" where
  "ffp_neighbours g r c dist [] queue = Inr queue"
| "ffp_neighbours g r c dist ((dr, dc) # ds) queue =
     (let nr = r + dr; nc = c + dc in
      if 0 \<le> nr \<and> nr < int (length g) \<and> 0 \<le> nc \<and> nc < int (length (g ! 0))
      then (case get_cell g nr nc of
              Inl e \<Rightarrow> Inl e
            | Inr ch \<Rightarrow>
                if ch = CHR '' ''
                then ffp_neighbours g r c dist ds (queue @ [(nr, nc, dist + 1)])
                else ffp_neighbours g r c dist ds queue)
      else ffp_neighbours g r c dist ds queue)"

definition ffp_dirs :: "(int \<times> int) list" where
  "ffp_dirs = [(-1, 0), (1, 0), (0, -1), (0, 1)]"

text \<open>The cells the traversal can ever hold: those within \<open>len(maze)\<close> and \<open>len(maze[0])\<close>.\<close>

definition ffp_box :: "grid \<Rightarrow> coord set" where
  "ffp_box g = {0 ..< int (length g)} \<times> {0 ..< int (length (g ! 0))}"

definition queue_cells :: "(int \<times> int \<times> int) list \<Rightarrow> coord set" where
  "queue_cells queue = (\<lambda>(r, c, d). (r, c)) ` set queue"

lemma queue_cells_simps:
  "queue_cells [] = {}"
  "queue_cells ((r, c, d) # queue) = insert (r, c) (queue_cells queue)"
  "queue_cells (queue @ [(r, c, d)]) = insert (r, c) (queue_cells queue)"
  by (auto simp: queue_cells_def)

lemma finite_ffp_box: "finite (ffp_box g)"
  by (simp add: ffp_box_def)

lemma finite_queue_cells: "finite (queue_cells queue)"
  by (simp add: queue_cells_def)

lemma ffp_neighbours_cells:
  "ffp_neighbours g r c dist ds queue = Inr queue' \<Longrightarrow>
     queue_cells queue' \<subseteq> queue_cells queue \<union> ffp_box g"
proof (induction ds arbitrary: queue)
  case Nil
  then show ?case by simp
next
  case (Cons d ds)
  obtain dr dc where d: "d = (dr, dc)" by (cases d)
  let ?nr = "r + dr" and ?nc = "c + dc"
  show ?case
  proof (cases "0 \<le> ?nr \<and> ?nr < int (length g) \<and> 0 \<le> ?nc \<and> ?nc < int (length (g ! 0))
                 \<and> get_cell g ?nr ?nc = Inr CHR '' ''")
    case True
    with Cons.prems d have "ffp_neighbours g r c dist ds (queue @ [(?nr, ?nc, dist + 1)]) = Inr queue'"
      by (auto simp: Let_def)
    from Cons.IH[OF this] True show ?thesis
      by (auto simp: queue_cells_simps ffp_box_def)
  next
    case False
    with Cons.prems d have "ffp_neighbours g r c dist ds queue = Inr queue'"
      by (auto simp: Let_def split: sum.splits if_splits)
    from Cons.IH[OF this] show ?thesis .
  qed
qed

text \<open>
  The \<open>while queue\<close> loop of \<open>find_farthest_point\<close>; \<open>queue.popleft()\<close> takes the head.
  \<open>len(maze[0])\<close> is only evaluated once \<open>0 <= nr < len(maze)\<close> holds, so the grid has a
  first row there.
\<close>

function ffp_loop ::
  "grid \<Rightarrow> coord set \<Rightarrow> (int \<times> int \<times> int) list \<Rightarrow> coord \<Rightarrow> int \<Rightarrow> error + coord" where
  "ffp_loop g visited queue farthest max_dist =
     (case queue of
        [] \<Rightarrow> Inr farthest
      | (r, c, dist) # queue1 \<Rightarrow>
          if (r, c) \<in> visited then ffp_loop g visited queue1 farthest max_dist
          else (case ffp_neighbours g r c dist ffp_dirs queue1 of
                  Inl e \<Rightarrow> Inl e
                | Inr queue2 \<Rightarrow>
                    if dist > max_dist
                    then ffp_loop g (insert (r, c) visited) queue2 (r, c) dist
                    else ffp_loop g (insert (r, c) visited) queue2 farthest max_dist))"
  by pat_completeness auto
termination
proof (relation "measures
    [\<lambda>(g, visited, queue, farthest, max_dist). card ((ffp_box g \<union> queue_cells queue) - visited),
     \<lambda>(g, visited, queue, farthest, max_dist). length queue]", goal_cases)
  case 1
  then show ?case by simp
next
  case (2 g visited queue farthest max_dist x21 queue1 r x22 c dist)
  then have "queue_cells queue1 \<subseteq> queue_cells queue" by (auto simp: queue_cells_simps)
  then have "card ((ffp_box g \<union> queue_cells queue1) - visited) \<le> card ((ffp_box g \<union> queue_cells queue) - visited)"
    by (intro card_mono) (auto simp: finite_ffp_box finite_queue_cells)
  with 2 show ?case by auto
next
  case (3 g visited queue farthest max_dist x21 queue1 r x22 c dist queue2)
  have fin: "finite ((ffp_box g \<union> queue_cells queue) - visited)"
    by (simp add: finite_ffp_box finite_queue_cells)
  from 3 have "ffp_neighbours g r c dist ffp_dirs queue1 = Inr queue2" by simp
  then have "queue_cells queue2 \<subseteq> queue_cells queue1 \<union> ffp_box g"
    by (rule ffp_neighbours_cells)
  moreover from 3 have "queue_cells queue1 \<subseteq> queue_cells queue" "(r, c) \<in> queue_cells queue"
    by (auto simp: queue_cells_simps)
  ultimately have "(ffp_box g \<union> queue_cells queue2) - insert (r, c) visited
      \<subset> (ffp_box g \<union> queue_cells queue) - visited"
    using 3 by auto
  from psubset_card_mono[OF fin this] show ?case by simp
next
  case (4 g visited queue farthest max_dist x21 queue1 r x22 c dist queue2)
  have fin: "finite ((ffp_box g \<union> queue_cells queue) - visited)"
    by (simp add: finite_ffp_box finite_queue_cells)
  from 4 have "ffp_neighbours g r c dist ffp_dirs queue1 = Inr queue2" by simp
  then have "queue_cells queue2 \<subseteq> queue_cells queue1 \<union> ffp_box g"
    by (rule ffp_neighbours_cells)
  moreover from 4 have "queue_cells queue1 \<subseteq> queue_cells queue" "(r, c) \<in> queue_cells queue"
    by (auto simp: queue_cells_simps)
  ultimately have "(ffp_box g \<union> queue_cells queue2) - insert (r, c) visited
      \<subset> (ffp_box g \<union> queue_cells queue) - visited"
    using 4 by auto
  from psubset_card_mono[OF fin this] show ?case by simp
qed

definition find_farthest_point :: "grid \<Rightarrow> coord \<Rightarrow> error + coord" where
  "find_farthest_point g st = ffp_loop g {} [(fst st, snd st, 0)] st (- 1)"

text \<open>
  \<open>generate_solvable_maze\<close>, on the dimensions stored by the constructor; it returns the
  finished object (grid, start and goal).
\<close>

definition generate_solvable_maze :: "choices \<Rightarrow> int \<Rightarrow> int \<Rightarrow> error + Maze" where
  "generate_solvable_maze ch rows0 cols0 =
     (let rws = rows0 OR 1; cls = cols0 OR 1;
          g0 = replicate (nat rws) (replicate (nat cls) CHR ''#'')
      in case randrange 1 rws 2 (start_row_pick ch) of Inl e \<Rightarrow> Inl e | Inr start_row \<Rightarrow>
         case randrange 1 cls 2 (start_col_pick ch) of Inl e \<Rightarrow> Inl e | Inr start_col \<Rightarrow>
         case set_cell g0 start_row start_col CHR ''S'' of Inl e \<Rightarrow> Inl e | Inr g1 \<Rightarrow>
         case carve_loop rws cls (dir_key ch) 0 g1 [(start_row, start_col)] of Inl e \<Rightarrow> Inl e | Inr g2 \<Rightarrow>
         case set_cell g2 start_row start_col CHR '' '' of Inl e \<Rightarrow> Inl e | Inr g3 \<Rightarrow>
         case find_farthest_point g3 (start_row, start_col) of Inl e \<Rightarrow> Inl e | Inr (goal_row, goal_col) \<Rightarrow>
         case set_cell g3 goal_row goal_col CHR ''G'' of Inl e \<Rightarrow> Inl e | Inr g4 \<Rightarrow>
         case set_cell g4 start_row start_col CHR ''S'' of Inl e \<Rightarrow> Inl e | Inr g5 \<Rightarrow>
         Inr \<lparr>rows = rws, cols = cls, maze = g5,
              start = (start_row, start_col), goal = (goal_row, goal_col)\<rparr>)"

text \<open>\<open>Maze.__init__\<close>: an even dimension is stored incremented, then the maze is generated.\<close>

definition init_dim :: "int \<Rightarrow> int" where
  "init_dim n = (if n mod 2 = 1 then n else n + 1)"

definition Maze_init :: "choices \<Rightarrow> int \<Rightarrow> int \<Rightarrow> error + Maze" where
  "Maze_init ch rows0 cols0 = generate_solvable_maze ch (init_dim rows0) (init_dim cols0)"


section \<open>Properties\<close>

subsection \<open>Well-formed mazes and the corridor maze\<close>

text \<open>A maze object is well formed when its grid has the stored dimensions.\<close>

definition well_formed :: "Maze \<Rightarrow> bool" where
  "well_formed m \<longleftrightarrow>
     length (maze m) = nat (rows m) \<and> (\<forall>row \<in> set (maze m). length row = nat (cols m))"

text \<open>
  The directly constructed 5 by 5 corridor maze: start at \<open>(1, 1)\<close>, goal at \<open>(1, 3)\<close>, one
  open cell between them.
\<close>

definition corridor_maze :: Maze where
  "corridor_maze =
     \<lparr>rows = 5, cols = 5,
      maze = [''#####'', ''#S G#'', ''#####'', ''#####'', ''#####''],
      start = (1, 1), goal = (1, 3)\<rparr>"

lemma py_index_nonneg: "0 \<le> i \<Longrightarrow> i < int n \<Longrightarrow> py_index n i = Inr (nat i)"
  by (simp add: py_index_def)

lemma get_cell_in_bounds:
  assumes "0 \<le> r" "r < int (length g)" "0 \<le> c" "c < int (length (g ! nat r))"
  shows "get_cell g r c = Inr (g ! nat r ! nat c)"
  using assms by (simp add: get_cell_def py_index_nonneg)

lemma well_formed_get_cell:
  assumes "well_formed m" "0 \<le> r" "r < rows m" "0 \<le> c" "c < cols m"
  shows "get_cell (maze m) r c = Inr (maze m ! nat r ! nat c)"
proof -
  from assms have r: "r < int (length (maze m))" by (simp add: well_formed_def)
  with assms(2) have "maze m ! nat r \<in> set (maze m)" by simp
  with assms have "c < int (length (maze m ! nat r))" by (simp add: well_formed_def)
  with r assms show ?thesis by (intro get_cell_in_bounds) auto
qed

text \<open>A coordinate that lies within the stored bounds and is not a wall.\<close>

definition passable :: "Maze \<Rightarrow> coord \<Rightarrow> bool" where
  "passable m p \<longleftrightarrow>
     0 \<le> fst p \<and> fst p < rows m \<and> 0 \<le> snd p \<and> snd p < cols m \<and>
     maze m ! nat (fst p) ! nat (snd p) \<noteq> CHR ''#''"

lemma get_next_loop_spec:
  assumes "well_formed m"
  shows "get_next_loop m st ms acc =
     Inr (acc @ map (\<lambda>(a, d). (a, (fst st + fst d, snd st + snd d)))
                 (filter (\<lambda>(a, d). passable m (fst st + fst d, snd st + snd d)) ms))"
proof (induction ms arbitrary: acc)
  case Nil
  then show ?case by simp
next
  case (Cons x ms)
  obtain a dr dc where x: "x = (a, (dr, dc))" by (cases x) auto
  show ?case
  proof (cases "0 \<le> fst st + dr \<and> fst st + dr < rows m \<and> 0 \<le> snd st + dc \<and> snd st + dc < cols m")
    case True
    then have "get_cell (maze m) (fst st + dr) (snd st + dc)
        = Inr (maze m ! nat (fst st + dr) ! nat (snd st + dc))"
      using well_formed_get_cell[OF assms] by simp
    with True x Cons.IH show ?thesis by (simp add: passable_def Let_def)
  next
    case False
    with x Cons.IH show ?thesis by (auto simp add: passable_def Let_def)
  qed
qed

text \<open>
  Claim C5.  On a well-formed maze, \<open>get_next\<close> returns, for every node, exactly the
  (action, coordinate) pairs of the four directions in the order left, right, up, down
  whose target lies within the bounds and is not a wall: the candidates filtered by
  \<open>passable\<close>, order kept.
\<close>

theorem get_next_spec:
  assumes "well_formed m"
  shows "get_next m nd =
     Inr (map (\<lambda>(a, d). (a, (fst (state nd) + fst d, snd (state nd) + snd d)))
            (filter (\<lambda>(a, d). passable m (fst (state nd) + fst d, snd (state nd) + snd d))
               [(Left, (0, -1)), (Right, (0, 1)), (Up, (-1, 0)), (Down, (1, 0))]))"
  using get_next_loop_spec[OF assms, of "state nd" moves "[]"]
  by (simp add: get_next_def moves_def)

theorem get_next_spec_witness:
  "well_formed corridor_maze \<and>
   get_next corridor_maze (Node (1, 2) None None ()) = Inr [(Left, (1, 1)), (Right, (1, 3))]"
proof -
  have wf: "well_formed corridor_maze"
    by (simp add: well_formed_def corridor_maze_def)
  show ?thesis
    using wf get_next_spec[OF wf, of "Node (1, 2) None None ()"]
    by (simp add: passable_def corridor_maze_def)
qed


subsection \<open>Frontier ordering\<close>

text \<open>\<open>k\<close> successive \<open>remove()\<close> calls: the nodes in the order they are returned.\<close>

fun remove_n ::
  "('c node list \<Rightarrow> error + ('c node \<times> 'c node list)) \<Rightarrow> nat \<Rightarrow> 'c node list \<Rightarrow> error + 'c node list" where
  "remove_n remove 0 fr = Inr []"
| "remove_n remove (Suc k) fr =
     (case remove fr of
        Inl e \<Rightarrow> Inl e
      | Inr (nd, fr') \<Rightarrow>
          (case remove_n remove k fr' of Inl e \<Rightarrow> Inl e | Inr nds \<Rightarrow> Inr (nd # nds)))"

text \<open>Successive \<open>add\<close> calls on an initially empty frontier.\<close>

definition add_all :: "('c node list \<Rightarrow> 'c node \<Rightarrow> 'c node list) \<Rightarrow> 'c node list \<Rightarrow> 'c node list" where
  "add_all add nds = foldl add [] nds"

lemma queue_remove_all: "remove_n QueueFrontier_remove (length fr) fr = Inr fr"
  by (induction fr) (simp_all add: QueueFrontier_remove_def frontier_empty_def)

lemma resort_snoc:
  "sort_key f (sort_key f xs @ [x]) = sort_key f (xs @ [x])"
proof (rule sym, rule properties_for_sort_key)
  show "mset (sort_key f (sort_key f xs @ [x])) = mset (xs @ [x])"
    by (simp only: mset_sort mset_append)
  show "sorted (map f (sort_key f (sort_key f xs @ [x])))"
    by (rule sorted_sort_key)
  fix k
  have "filter (\<lambda>y. f y = f k) (sort_key f (sort_key f xs @ [x]))
        = filter (\<lambda>y. f y = f k) (xs @ [x])"
    by (simp only: sort_key_stable filter_append)
  moreover have "(\<lambda>y. f k = f y) = (\<lambda>y. f y = f k)" by auto
  ultimately show "filter (\<lambda>y. f k = f y) (sort_key f (sort_key f xs @ [x]))
        = filter (\<lambda>y. f k = f y) (xs @ [x])"
    by (simp only:)
qed

lemma priority_add_all:
  "add_all (PriorityQueueFrontier_add func gl) nds = sort_key (\<lambda>n. func n gl) nds"
proof (induction nds rule: rev_induct)
  case Nil
  then show ?case by (simp add: add_all_def)
next
  case (snoc x xs)
  have "add_all (PriorityQueueFrontier_add func gl) (xs @ [x])
      = sort_key (\<lambda>n. func n gl) (add_all (PriorityQueueFrontier_add func gl) xs @ [x])"
    by (simp only: add_all_def foldl_append foldl.simps PriorityQueueFrontier_add_def)
  with snoc show ?case by (simp only: resort_snoc)
qed

lemma sort_key_head_min:
  assumes "sort_key f xs = y # ys"
  shows "(\<forall>x \<in> set xs. f y \<le> f x) \<and> y = hd (filter (\<lambda>n. f n = f y) xs)"
proof
  have "sorted (map f (y # ys))" using sorted_sort_key[of f xs] by (simp only: assms)
  then have "\<forall>x \<in> set (y # ys). f y \<le> f x" by auto
  moreover have "set xs = set (y # ys)" using set_sort[of f xs] by (simp only: assms)
  ultimately show "\<forall>x \<in> set xs. f y \<le> f x" by simp
  have "filter (\<lambda>n. f n = f y) (y # ys) = filter (\<lambda>n. f n = f y) xs"
    using sort_key_stable[of f "f y" xs] by (simp only: assms)
  then have "filter (\<lambda>n. f n = f y) xs = y # filter (\<lambda>n. f n = f y) ys" by simp
  then show "y = hd (filter (\<lambda>n. f n = f y) xs)" by simp
qed

text \<open>
  Claim C6.  After adding \<open>n1, n2, n3\<close> to an empty frontier, three removals return
  \<open>n3, n2, n1\<close> from a stack and \<open>n1, n2, n3\<close> from a queue.  For the priority frontier and
  any sequence \<open>nds\<close> of additions, removing everything returns the nodes in ascending
  priority, and nodes of equal priority in the order they were added; in particular the
  first removal returns a node of minimum priority, the first one added among those.
\<close>

theorem frontier_ordering:
  "remove_n StackFrontier_remove 3 (add_all StackFrontier_add [n1, n2, n3]) = Inr [n3, n2, n1]
   \<and> remove_n QueueFrontier_remove 3 (add_all StackFrontier_add [n1, n2, n3]) = Inr [n1, n2, n3]
   \<and> (\<exists>out. remove_n QueueFrontier_remove (length nds)
                 (add_all (PriorityQueueFrontier_add func gl) nds) = Inr out
           \<and> mset out = mset nds
           \<and> sorted (map (\<lambda>n. func n gl) out)
           \<and> (\<forall>k. filter (\<lambda>n. func n gl = k) out = filter (\<lambda>n. func n gl = k) nds))
   \<and> (nds \<noteq> [] \<longrightarrow>
        (\<exists>nd fr. QueueFrontier_remove (add_all (PriorityQueueFrontier_add func gl) nds) = Inr (nd, fr)
           \<and> (\<forall>x \<in> set nds. func nd gl \<le> func x gl)
           \<and> nd = hd (filter (\<lambda>n. func n gl = func nd gl) nds)))"
proof (intro conjI)
  show "remove_n StackFrontier_remove 3 (add_all StackFrontier_add [n1, n2, n3]) = Inr [n3, n2, n1]"
    by (simp add: numeral_3_eq_3 add_all_def StackFrontier_add_def StackFrontier_remove_def
        frontier_empty_def)
  show "remove_n QueueFrontier_remove 3 (add_all StackFrontier_add [n1, n2, n3]) = Inr [n1, n2, n3]"
    by (simp add: numeral_3_eq_3 add_all_def StackFrontier_add_def QueueFrontier_remove_def
        frontier_empty_def)
  let ?f = "\<lambda>n. func n gl"
  let ?fr = "add_all (PriorityQueueFrontier_add func gl) nds"
  have fr: "?fr = sort_key ?f nds" by (rule priority_add_all)
  have len: "length (sort_key ?f nds) = length nds" by (rule length_sort)
  have "remove_n QueueFrontier_remove (length nds) ?fr = Inr (sort_key ?f nds)"
    using queue_remove_all[of "sort_key ?f nds"] by (simp only: fr len)
  moreover have "mset (sort_key ?f nds) = mset nds" by (rule mset_sort)
  moreover have "sorted (map ?f (sort_key ?f nds))" by (rule sorted_sort_key)
  moreover have "\<forall>k. filter (\<lambda>n. ?f n = k) (sort_key ?f nds) = filter (\<lambda>n. ?f n = k) nds"
    by (intro allI sort_key_stable)
  ultimately show "\<exists>out. remove_n QueueFrontier_remove (length nds) ?fr = Inr out
           \<and> mset out = mset nds
           \<and> sorted (map ?f out)
           \<and> (\<forall>k. filter (\<lambda>n. ?f n = k) out = filter (\<lambda>n. ?f n = k) nds)"
    by blast
  show "nds \<noteq> [] \<longrightarrow>
        (\<exists>nd fr. QueueFrontier_remove ?fr = Inr (nd, fr)
           \<and> (\<forall>x \<in> set nds. ?f nd \<le> ?f x)
           \<and> nd = hd (filter (\<lambda>n. ?f n = ?f nd) nds))"
  proof
    assume ne: "nds \<noteq> []"
    with len have "sort_key ?f nds \<noteq> []" by (metis length_0_conv)
    then obtain nd rest where s: "sort_key ?f nds = nd # rest"
      by (cases "sort_key ?f nds") auto
    have "QueueFrontier_remove ?fr = Inr (nd, rest)"
      by (simp add: fr s QueueFrontier_remove_def frontier_empty_def del: sort_key_simps)
    with sort_key_head_min[OF s]
    show "\<exists>nd fr. QueueFrontier_remove ?fr = Inr (nd, fr)
           \<and> (\<forall>x \<in> set nds. ?f nd \<le> ?f x)
           \<and> nd = hd (filter (\<lambda>n. ?f n = ?f nd) nds)"
      by blast
  qed
qed

theorem frontier_ordering_witness:
  "[Node (0, 5) None None (), Node (1, 0) None None (), Node (0, 3) None None (),
      Node (0, 1) None None ()] \<noteq> []
   \<and> (\<exists>nd fr. QueueFrontier_remove
         (add_all (PriorityQueueFrontier_add manhattan_distance (0, 0))
            [Node (0, 5) None None (), Node (1, 0) None None (), Node (0, 3) None None (),
             Node (0, 1) None None ()]) = Inr (nd, fr)
       \<and> manhattan_distance nd (0, 0) \<le> 1)"
proof -
  let ?nds = "[Node (0, 5) None None (), Node (1, 0) None None (), Node (0, 3) None None (),
      Node (0, 1) None None ()] :: plain_node list"
  have ne: "?nds \<noteq> []" by simp
  from frontier_ordering[of "Node (0, 5) None None ()" "Node (1, 0) None None ()"
      "Node (0, 3) None None ()" ?nds manhattan_distance "(0, 0)"] ne
  obtain nd fr where
    r: "QueueFrontier_remove (add_all (PriorityQueueFrontier_add manhattan_distance (0, 0)) ?nds)
          = Inr (nd, fr)" and
    m: "\<forall>x \<in> set ?nds. manhattan_distance nd (0, 0) \<le> manhattan_distance x (0, 0)"
    by blast
  from m have "manhattan_distance nd (0, 0) \<le> manhattan_distance (Node (1, 0) None None ()) (0, 0)"
    by simp
  then have "manhattan_distance nd (0, 0) \<le> 1" by (simp add: manhattan_distance_def)
  with r ne show ?thesis by blast
qed


subsection \<open>The corridor scenario\<close>

text \<open>
  Claim C4, as stated: each search returns the two-step path
  \<open>[(right, (1, 2)), (right, (1, 3))]\<close> on the corridor maze.  Breadth-first search returns
  the one-step path \<open>[(right, (1, 2))]\<close> instead: the step onto the goal is cut off by
  \<open>path[:-1]\<close>.
\<close>

theorem corridor_two_step_counterexample:
  "breadth_first_search (1, 1) corridor_maze
     = Some (Inr ([(Some Right, (1, 2))], [(1, 2)]), corridor_maze)
   \<and> [(Some Right, (1 :: int, 2 :: int))] \<noteq> [(Some Right, (1, 2)), (Some Right, (1, 3))]"
  by code_simp

text \<open>
  Claim C4, amended.  On the corridor maze each of the four searches returns the path
  \<open>[(right, (1, 2))]\<close>, the steps from just after the start to just before the goal, and
  the explored list \<open>[(1, 2)]\<close>.
\<close>

theorem corridor_paths:
  "breadth_first_search (1, 1) corridor_maze
     = Some (Inr ([(Some Right, (1, 2))], [(1, 2)]), corridor_maze)
   \<and> depth_first_search (1, 1) corridor_maze
     = Some (Inr ([(Some Right, (1, 2))], [(1, 2)]), corridor_maze)
   \<and> greedy_first_search (1, 1) corridor_maze
     = Some (Inr ([(Some Right, (1, 2))], [(1, 2)]), corridor_maze)
   \<and> astar_first_search (1, 1) corridor_maze
     = Some (Inr ([(Some Right, (1, 2))], [(1, 2)]), corridor_maze)"
  by code_simp

subsection \<open>The maze is not written by a search\<close>

lemma search_step_maze:
  "search_step add remove child_cost goal_of s = Continue s' \<Longrightarrow> the_maze s' = the_maze s"
  "search_step add remove child_cost goal_of s = Return y \<Longrightarrow> snd y = the_maze s"
  by (auto simp: search_step_def split: if_splits sum.splits prod.splits)

text \<open>The state after \<open>k\<close> iterations of the search loop, if it has not returned before.\<close>

fun search_iter ::
  "('c node list \<Rightarrow> 'c node \<Rightarrow> 'c node list) \<Rightarrow> ('c node list \<Rightarrow> error + ('c node \<times> 'c node list))
     \<Rightarrow> ('c \<Rightarrow> 'c) \<Rightarrow> (Maze \<Rightarrow> coord) \<Rightarrow> nat \<Rightarrow> 'c search_state \<Rightarrow> 'c search_state option" where
  "search_iter add remove child_cost goal_of 0 s = Some s"
| "search_iter add remove child_cost goal_of (Suc k) s =
     (case search_step add remove child_cost goal_of s of
        Return r \<Rightarrow> None
      | Continue s' \<Rightarrow> search_iter add remove child_cost goal_of k s')"

lemma search_loop_returns:
  assumes "search_iter add remove child_cost goal_of k s = Some s'"
    and "search_step add remove child_cost goal_of s' = Return y"
  shows "search_loop add remove child_cost goal_of s = Some y"
  using assms
proof (induction k arbitrary: s)
  case 0
  then show ?case by (subst search_loop.simps) simp
next
  case (Suc k)
  then show ?case by (subst search_loop.simps) (auto split: outcome.splits)
qed

lemma search_loop_iterD:
  assumes "search_loop add remove child_cost goal_of s = Some y"
  shows "\<exists>k s'. search_iter add remove child_cost goal_of k s = Some s'
           \<and> search_step add remove child_cost goal_of s' = Return y"
  using assms
proof (rule search_loop.raw_induct[where P = "\<lambda>add remove child_cost goal_of s y.
      \<exists>k s'. search_iter add remove child_cost goal_of k s = Some s'
           \<and> search_step add remove child_cost goal_of s' = Return y", rotated], goal_cases)
  case (1 loop add remove child_cost goal_of s y)
  show ?case
  proof (cases "search_step add remove child_cost goal_of s")
    case (Continue s1)
    with 1(2) have "loop add remove child_cost goal_of s1 = Some y" by simp
    from 1(1)[OF this] obtain k s' where
      "search_iter add remove child_cost goal_of k s1 = Some s'"
      "search_step add remove child_cost goal_of s' = Return y" by blast
    with Continue have "search_iter add remove child_cost goal_of (Suc k) s = Some s'
         \<and> search_step add remove child_cost goal_of s' = Return y" by simp
    then show ?thesis by blast
  next
    case (Return r)
    with 1(2) have "search_iter add remove child_cost goal_of 0 s = Some s
         \<and> search_step add remove child_cost goal_of s = Return y" by simp
    then show ?thesis by blast
  qed
qed

lemma search_iter_maze:
  "search_iter add remove child_cost goal_of k s = Some s' \<Longrightarrow> the_maze s' = the_maze s"
  by (induction k arbitrary: s) (auto split: outcome.splits dest: search_step_maze(1))

lemma search_loop_maze:
  assumes "search_loop add remove child_cost goal_of s = Some y"
  shows "snd y = the_maze s"
proof -
  from search_loop_iterD[OF assms] obtain k s' where
    "search_iter add remove child_cost goal_of k s = Some s'"
    "search_step add remove child_cost goal_of s' = Return y" by blast
  then show ?thesis by (simp add: search_iter_maze search_step_maze(2))
qed

text \<open>
  Claim C9.  Whatever a search returns or raises, the maze object it hands back (grid,
  dimensions, start and goal) is the one it was given.
\<close>

theorem search_keeps_maze:
  "(breadth_first_search st m = Some (res, m') \<longrightarrow> m' = m)
   \<and> (depth_first_search st m = Some (res, m') \<longrightarrow> m' = m)
   \<and> (greedy_first_search st m = Some (res, m') \<longrightarrow> m' = m)
   \<and> (astar_first_search st m = Some (res, m') \<longrightarrow> m' = m)"
  by (auto simp: breadth_first_search_def depth_first_search_def greedy_first_search_def
      astar_first_search_def init_state_def Let_def dest!: search_loop_maze)

theorem search_keeps_maze_witness:
  "(\<exists>res m'. breadth_first_search (1, 1) corridor_maze = Some (res, m') \<and> m' = corridor_maze)
   \<and> (\<exists>res m'. depth_first_search (1, 1) corridor_maze = Some (res, m') \<and> m' = corridor_maze)
   \<and> (\<exists>res m'. greedy_first_search (1, 1) corridor_maze = Some (res, m') \<and> m' = corridor_maze)
   \<and> (\<exists>res m'. astar_first_search (1, 1) corridor_maze = Some (res, m') \<and> m' = corridor_maze)"
proof -
  have "breadth_first_search (1, 1) corridor_maze \<noteq> None" by code_simp
  then obtain r1 m1 where b: "breadth_first_search (1, 1) corridor_maze = Some (r1, m1)" by auto
  have "depth_first_search (1, 1) corridor_maze \<noteq> None" by code_simp
  then obtain r2 m2 where d: "depth_first_search (1, 1) corridor_maze = Some (r2, m2)" by auto
  have "greedy_first_search (1, 1) corridor_maze \<noteq> None" by code_simp
  then obtain r3 m3 where g: "greedy_first_search (1, 1) corridor_maze = Some (r3, m3)" by auto
  have "astar_first_search (1, 1) corridor_maze \<noteq> None" by code_simp
  then obtain r4 m4 where a: "astar_first_search (1, 1) corridor_maze = Some (r4, m4)" by auto
  from b search_keeps_maze[of "(1, 1)" corridor_maze r1 m1] have "m1 = corridor_maze" by simp
  moreover from d search_keeps_maze[of "(1, 1)" corridor_maze r2 m2] have "m2 = corridor_maze" by simp
  moreover from g search_keeps_maze[of "(1, 1)" corridor_maze r3 m3] have "m3 = corridor_maze" by simp
  moreover from a search_keeps_maze[of "(1, 1)" corridor_maze r4 m4] have "m4 = corridor_maze" by simp
  ultimately show ?thesis using b d g a by simp
qed

subsection \<open>Cost and depth in A*\<close>

text \<open>The number of parent links from a node to the root.\<close>

fun depth :: "'c node \<Rightarrow> nat" where
  "depth (Node st None a c) = 0"
| "depth (Node st (Some p) a c) = Suc (depth p)"





lemma set_priority_add [simp]:
  "set (PriorityQueueFrontier_add func gl fr nd) = insert nd (set fr)"
  by (simp add: PriorityQueueFrontier_add_def del: sort_key_simps)








subsection \<open>Reachability\<close>

text \<open>Two coordinates one cardinal step apart.\<close>

definition adjacent :: "coord \<Rightarrow> coord \<Rightarrow> bool" where
  "adjacent p q \<longleftrightarrow> \<bar>fst p - fst q\<bar> + \<bar>snd p - snd q\<bar> = 1"

text \<open>One move of the maze: to an adjacent cell that is within bounds and not a wall.\<close>

definition maze_step :: "Maze \<Rightarrow> (coord \<times> coord) set" where
  "maze_step m = {(p, q). adjacent p q \<and> passable m q}"

definition reachable :: "Maze \<Rightarrow> coord \<Rightarrow> coord \<Rightarrow> bool" where
  "reachable m p q \<longleftrightarrow> (p, q) \<in> (maze_step m)\<^sup>*"

subsection \<open>A search without a reachable goal\<close>

text \<open>
  What the search loop needs of a frontier class: \<open>add\<close> adds the node and nothing else,
  \<open>remove\<close> on a non-empty frontier takes one node out.
\<close>

definition add_ok :: "('c node list \<Rightarrow> 'c node \<Rightarrow> 'c node list) \<Rightarrow> bool" where
  "add_ok add \<longleftrightarrow> (\<forall>fr nd. mset (add fr nd) = add_mset nd (mset fr))"

definition remove_ok :: "('c node list \<Rightarrow> error + ('c node \<times> 'c node list)) \<Rightarrow> bool" where
  "remove_ok remove \<longleftrightarrow>
     (\<forall>fr. fr \<noteq> [] \<longrightarrow> (\<exists>nd fr'. remove fr = Inr (nd, fr') \<and> mset fr = add_mset nd (mset fr')))"

lemma add_ok_stack: "add_ok StackFrontier_add"
  by (simp add: add_ok_def StackFrontier_add_def)

lemma add_ok_priority: "add_ok (PriorityQueueFrontier_add func gl)"
  by (simp add: add_ok_def PriorityQueueFrontier_add_def del: sort_key_simps)

lemma remove_ok_stack: "remove_ok StackFrontier_remove"
  unfolding remove_ok_def
proof (intro allI impI)
  fix fr :: "'a node list"
  assume "fr \<noteq> []"
  then obtain xs x where "fr = xs @ [x]" by (cases fr rule: rev_cases) auto
  then show "\<exists>nd fr'. StackFrontier_remove fr = Inr (nd, fr') \<and> mset fr = add_mset nd (mset fr')"
    by (simp add: StackFrontier_remove_def frontier_empty_def)
qed

lemma remove_ok_queue: "remove_ok QueueFrontier_remove"
  unfolding remove_ok_def
proof (intro allI impI)
  fix fr :: "'a node list"
  assume "fr \<noteq> []"
  then obtain x xs where "fr = x # xs" by (cases fr) auto
  then show "\<exists>nd fr'. QueueFrontier_remove fr = Inr (nd, fr') \<and> mset fr = add_mset nd (mset fr')"
    by (simp add: QueueFrontier_remove_def frontier_empty_def)
qed

lemma contains_state_iff: "contains_state fr q \<longleftrightarrow> q \<in> state ` set fr"
  by (auto simp: contains_state_def list_ex_iff)

lemma add_ok_set: "add_ok add \<Longrightarrow> set (add fr nd) = insert nd (set fr)"
  by (metis add_ok_def set_mset_add_mset_insert set_mset_mset)

lemma add_ok_distinct:
  assumes "add_ok add"
  shows "distinct (map state (add fr nd)) \<longleftrightarrow> state nd \<notin> state ` set fr \<and> distinct (map state fr)"
proof -
  from assms have "mset (map state (add fr nd)) = mset (map state (nd # fr))"
    by (simp add: add_ok_def)
  then have "distinct (map state (add fr nd)) \<longleftrightarrow> distinct (map state (nd # fr))"
    by (rule mset_eq_imp_distinct_iff)
  then show ?thesis by simp
qed

text \<open>The frontier invariant: states pairwise different, none explored, all within \<open>R\<close>.\<close>

definition frontier_inv :: "coord set \<Rightarrow> coord set \<Rightarrow> 'c node list \<Rightarrow> bool" where
  "frontier_inv R es fr \<longleftrightarrow>
     distinct (map state fr) \<and> (\<forall>nd \<in> set fr. state nd \<in> R \<and> state nd \<notin> es)"

lemma expand_inv:
  assumes "add_ok add" "frontier_inv R es fr" "snd ` set nxt \<subseteq> R"
  shows "frontier_inv R es (expand add child_cost nd es nxt fr)"
  using assms(2,3)
proof (induction nxt arbitrary: fr)
  case Nil
  then show ?case by simp
next
  case (Cons x nxt)
  obtain a q where x: "x = (a, q)" by (cases x)
  show ?case
  proof (cases "\<not> contains_state fr q \<and> q \<notin> es")
    case True
    let ?fr = "add fr (Node q (Some nd) (Some a) (child_cost (cost nd)))"
    from True Cons.prems x have "frontier_inv R es ?fr"
      by (auto simp: frontier_inv_def add_ok_distinct[OF assms(1)] add_ok_set[OF assms(1)]
          contains_state_iff)
    from Cons.IH[OF this] Cons.prems(2) True x show ?thesis by simp
  next
    case False
    from Cons.IH[OF Cons.prems(1)] Cons.prems(2) False x show ?thesis by auto
  qed
qed

lemma get_next_filter:
  assumes "well_formed m"
  shows "get_next m nd =
     Inr (map (\<lambda>(a, d). (a, (fst (state nd) + fst d, snd (state nd) + snd d)))
            (filter (\<lambda>(a, d). passable m (fst (state nd) + fst d, snd (state nd) + snd d)) moves))"
  using get_next_loop_spec[OF assms, of "state nd" moves "[]"] by (simp add: get_next_def)

lemma get_next_steps:
  assumes "well_formed m" "get_next m nd = Inr nxt" "(a, q) \<in> set nxt"
  shows "(state nd, q) \<in> maze_step m"
proof -
  from assms(2,3) get_next_filter[OF assms(1), of nd]
  obtain d where d: "(a, d) \<in> set moves"
    "q = (fst (state nd) + fst d, snd (state nd) + snd d)" "passable m q"
    by auto
  from d(1) have "\<bar>fst d\<bar> + \<bar>snd d\<bar> = 1" by (auto simp: moves_def)
  with d(2,3) show ?thesis by (simp add: maze_step_def adjacent_def)
qed

lemma get_next_total: "well_formed m \<Longrightarrow> \<exists>nxt. get_next m nd = Inr nxt"
  using get_next_filter[of m nd] by simp

lemma remove_okD:
  assumes "remove_ok remove" "fr \<noteq> []" "distinct (map state fr)"
  obtains nd fr' where "remove fr = Inr (nd, fr')" "nd \<in> set fr" "set fr' \<subseteq> set fr"
    "distinct (map state fr')" "state nd \<notin> state ` set fr'"
proof -
  from assms(1,2) obtain nd fr' where r: "remove fr = Inr (nd, fr')"
    and ms: "mset fr = add_mset nd (mset fr')"
    unfolding remove_ok_def by blast
  from ms have "mset (map state fr) = mset (map state (nd # fr'))" by simp
  then have "distinct (map state (nd # fr'))"
    using assms(3) mset_eq_imp_distinct_iff by blast
  moreover from ms have "set fr = insert nd (set fr')"
    by (metis set_mset_add_mset_insert set_mset_mset)
  ultimately show ?thesis using r that by auto
qed

lemma search_step_progress:
  assumes wf: "well_formed (the_maze s)"
    and ops: "add_ok add" "remove_ok remove"
    and inv: "frontier_inv R (explored_states s) (frontier s)"
    and closed: "\<forall>p q. p \<in> R \<longrightarrow> (p, q) \<in> maze_step (the_maze s) \<longrightarrow> q \<in> R"
    and nogoal: "goal_of (the_maze s) \<notin> R"
  shows "(frontier s = [] \<longrightarrow>
            search_step add remove child_cost goal_of s = Return (Inl NoSolution, the_maze s))
       \<and> (frontier s \<noteq> [] \<longrightarrow>
            (\<exists>s'. search_step add remove child_cost goal_of s = Continue s'
                \<and> the_maze s' = the_maze s
                \<and> frontier_inv R (explored_states s') (frontier s')
                \<and> R - explored_states s' \<subset> R - explored_states s))"
proof (intro conjI impI)
  assume "frontier s = []"
  then show "search_step add remove child_cost goal_of s = Return (Inl NoSolution, the_maze s)"
    by (simp add: search_step_def frontier_empty_def)
next
  assume ne: "frontier s \<noteq> []"
  from inv have dist: "distinct (map state (frontier s))" by (simp add: frontier_inv_def)
  from remove_okD[OF ops(2) ne dist] obtain nd fr where
    rem: "remove (frontier s) = Inr (nd, fr)" and nd: "nd \<in> set (frontier s)"
    and sub: "set fr \<subseteq> set (frontier s)" and dfr: "distinct (map state fr)"
    and fresh: "state nd \<notin> state ` set fr"
    by blast
  from inv nd have ndR: "state nd \<in> R" and ndE: "state nd \<notin> explored_states s"
    by (auto simp: frontier_inv_def)
  with nogoal have ng: "state nd \<noteq> goal_of (the_maze s)" by auto
  from get_next_total[OF wf] obtain nxt where nxt: "get_next (the_maze s) nd = Inr nxt" by blast
  have "snd ` set nxt \<subseteq> R"
  proof
    fix q assume "q \<in> snd ` set nxt"
    then obtain a where "(a, q) \<in> set nxt" by force
    from get_next_steps[OF wf nxt this] closed ndR show "q \<in> R" by blast
  qed
  moreover have "frontier_inv R (insert (state nd) (explored_states s)) fr"
    unfolding frontier_inv_def
  proof (intro conjI ballI)
    show "distinct (map state fr)" by (rule dfr)
    fix n assume n: "n \<in> set fr"
    with sub inv show "state n \<in> R" by (auto simp: frontier_inv_def)
    from n fresh have "state n \<noteq> state nd" by (metis imageI)
    moreover from n sub inv have "state n \<notin> explored_states s" by (auto simp: frontier_inv_def)
    ultimately show "state n \<notin> insert (state nd) (explored_states s)" by simp
  qed
  ultimately have finv: "frontier_inv R (insert (state nd) (explored_states s))
      (expand add child_cost nd (insert (state nd) (explored_states s)) nxt fr)"
    using expand_inv[OF ops(1)] by blast
  let ?s' = "s\<lparr>frontier := expand add child_cost nd (insert (state nd) (explored_states s)) nxt fr,
               explored_states := insert (state nd) (explored_states s),
               explored := explored s @ [state nd]\<rparr>"
  have "search_step add remove child_cost goal_of s = Continue ?s'"
    using ne rem ng nxt by (simp add: search_step_def frontier_empty_def)
  moreover have "R - explored_states ?s' \<subset> R - explored_states s"
    using ndR ndE by auto
  ultimately show "\<exists>s'. search_step add remove child_cost goal_of s = Continue s'
                \<and> the_maze s' = the_maze s
                \<and> frontier_inv R (explored_states s') (frontier s')
                \<and> R - explored_states s' \<subset> R - explored_states s"
    using finv by (intro exI[of _ ?s']) simp
qed

lemma search_loop_exhausts:
  assumes "finite R"
    and wf: "well_formed (the_maze s)"
    and ops: "add_ok add" "remove_ok remove"
    and inv: "frontier_inv R (explored_states s) (frontier s)"
    and closed: "\<forall>p q. p \<in> R \<longrightarrow> (p, q) \<in> maze_step (the_maze s) \<longrightarrow> q \<in> R"
    and nogoal: "goal_of (the_maze s) \<notin> R"
  shows "search_loop add remove child_cost goal_of s = Some (Inl NoSolution, the_maze s)"
  using wf inv closed nogoal
proof (induction "card (R - explored_states s)" arbitrary: s rule: less_induct)
  case less
  note prog = search_step_progress[where goal_of = goal_of and child_cost = child_cost and s = s
      and R = R and add = add and remove = remove, OF less.prems(1) ops less.prems(2,3,4)]
  show ?case
  proof (cases "frontier s = []")
    case True
    with prog show ?thesis by (subst search_loop.simps) simp
  next
    case False
    with prog obtain s' where
      st: "search_step add remove child_cost goal_of s = Continue s'" and
      mz: "the_maze s' = the_maze s" and
      fi: "frontier_inv R (explored_states s') (frontier s')" and
      ps: "R - explored_states s' \<subset> R - explored_states s"
      by blast
    from assms(1) ps have "card (R - explored_states s') < card (R - explored_states s)"
      by (intro psubset_card_mono) auto
    from less.hyps[OF this] less.prems mz fi
    have "search_loop add remove child_cost goal_of s' = Some (Inl NoSolution, the_maze s)"
      by simp
    with st show ?thesis by (subst search_loop.simps) simp
  qed
qed

lemma passable_bounds: "passable m p \<Longrightarrow> p \<in> {0 ..< rows m} \<times> {0 ..< cols m}"
  by (cases p) (simp add: passable_def)

lemma finite_reachable: "finite {q. reachable m st q}"
proof -
  have "{q. reachable m st q} \<subseteq> insert st ({0 ..< rows m} \<times> {0 ..< cols m})"
  proof
    fix q assume "q \<in> {q. reachable m st q}"
    then have "(st, q) \<in> (maze_step m)\<^sup>*" by (simp add: reachable_def)
    then show "q \<in> insert st ({0 ..< rows m} \<times> {0 ..< cols m})"
      by (cases rule: rtranclE) (auto simp: maze_step_def dest: passable_bounds)
  qed
  then show ?thesis by (rule finite_subset) simp
qed

lemma init_frontier_inv:
  assumes "add_ok add" "st \<in> R"
  shows "frontier_inv R {} (add [] (Node st None None c0))"
  using assms by (simp add: frontier_inv_def add_ok_distinct add_ok_set)

lemma search_loop_no_solution:
  assumes wf: "well_formed m" and ops: "add_ok add" "remove_ok remove"
    and unreach: "\<not> reachable m st (goal_of m)"
  shows "search_loop add remove child_cost goal_of (init_state add c0 st m) = Some (Inl NoSolution, m)"
proof -
  let ?R = "{q. reachable m st q}"
  let ?s = "init_state add c0 st m"
  have "st \<in> ?R" by (simp add: reachable_def)
  from init_frontier_inv[OF ops(1) this]
  have inv: "frontier_inv ?R (explored_states ?s) (frontier ?s)" by (simp add: init_state_def)
  have closed: "\<forall>p q. p \<in> ?R \<longrightarrow> (p, q) \<in> maze_step (the_maze ?s) \<longrightarrow> q \<in> ?R"
    by (auto simp: reachable_def init_state_def intro: rtrancl_into_rtrancl)
  have "search_loop add remove child_cost goal_of ?s = Some (Inl NoSolution, the_maze ?s)"
    using finite_reachable _ ops inv closed
  proof (rule search_loop_exhausts)
    show "well_formed (the_maze ?s)" using wf by (simp add: init_state_def)
    show "goal_of (the_maze ?s) \<notin> ?R" using unreach by (simp add: init_state_def)
  qed
  then show ?thesis by (simp add: init_state_def)
qed

lemma py_index_error: "py_index n i = Inl e \<Longrightarrow> e = IndexError"
  by (auto simp: py_index_def split: if_splits)

lemma get_cell_error: "get_cell g r c = Inl e \<Longrightarrow> e = IndexError"
  by (auto simp: get_cell_def split: sum.splits dest: py_index_error)

lemma get_next_loop_error: "get_next_loop m st ms acc = Inl e \<Longrightarrow> e = IndexError"
proof (induction m st ms acc rule: get_next_loop.induct)
  case (1 m st next_nodes)
  then show ?case by simp
next
  case (2 m st a dr dc ms next_nodes)
  then show ?case
    by (auto simp: Let_def split: if_splits sum.splits dest: get_cell_error)
qed

lemma search_step_no_empty_frontier:
  assumes "remove_ok remove" "search_step add remove child_cost goal_of s = Return (Inl e, m')"
  shows "e \<noteq> EmptyFrontier"
proof (cases "frontier s = []")
  case True
  with assms(2) show ?thesis by (simp add: search_step_def frontier_empty_def)
next
  case False
  with assms(1) obtain nd fr where "remove (frontier s) = Inr (nd, fr)"
    unfolding remove_ok_def by blast
  with False assms(2) show ?thesis
    by (auto simp: search_step_def frontier_empty_def get_next_def
        split: if_splits sum.splits dest: get_next_loop_error)
qed

lemma search_loop_no_empty_frontier:
  assumes "remove_ok remove" "search_loop add remove child_cost goal_of s = Some (res, m')"
  shows "res \<noteq> Inl EmptyFrontier"
proof
  assume "res = Inl EmptyFrontier"
  with search_loop_iterD[OF assms(2)] obtain s' where
    "search_step add remove child_cost goal_of s' = Return (Inl EmptyFrontier, m')" by blast
  from search_step_no_empty_frontier[OF assms(1) this] show False by simp
qed

lemma adjacent_cases:
  "adjacent (r, c) q \<Longrightarrow> q = (r, c - 1) \<or> q = (r, c + 1) \<or> q = (r - 1, c) \<or> q = (r + 1, c)"
  by (cases q) (auto simp: adjacent_def)

text \<open>
  A hand-built maze object whose grid is narrower than its stored dimensions: one row of
  three cells, stored as one row of four columns.  The goal at \<open>(0, 0)\<close> is walled off
  from the start coordinate \<open>(0, 2)\<close>.
\<close>

definition wide_maze :: Maze where
  "wide_maze = \<lparr>rows = 1, cols = 4, maze = [''G# ''], start = (0, 2), goal = (0, 0)\<rparr>"

lemma wide_maze_unreachable: "\<not> reachable wide_maze (0, 2) (goal wide_maze)"
proof
  assume "reachable wide_maze (0, 2) (goal wide_maze)"
  then have r: "((0, 2), (0, 0)) \<in> (maze_step wide_maze)\<^sup>*"
    by (simp add: reachable_def wide_maze_def)
  have "q = (0, 2) \<or> q = (0, 3)" if "((0, 2), q) \<in> (maze_step wide_maze)\<^sup>*" for q
    using that
  proof (induction rule: rtrancl_induct)
    case base
    then show ?case by simp
  next
    case (step y z)
    from step(2) have a: "adjacent y z" and p: "passable wide_maze z"
      by (simp_all add: maze_step_def)
    from step(3) show ?case
    proof
      assume "y = (0, 2)"
      with a have "z = (0, 1) \<or> z = (0, 3) \<or> z = (- 1, 2) \<or> z = (1, 2)"
        by (auto dest: adjacent_cases)
      with p show ?thesis by (auto simp: passable_def wide_maze_def)
    next
      assume "y = (0, 3)"
      with a have "z = (0, 2) \<or> z = (0, 4) \<or> z = (- 1, 3) \<or> z = (1, 3)"
        by (auto dest: adjacent_cases)
      with p show ?thesis by (auto simp: passable_def wide_maze_def)
    qed
  qed
  from this[OF r] show False by simp
qed

text \<open>
  Claim C3, as stated: on every maze, however constructed, whose goal cannot be reached,
  each search raises the "No solution" exception.  On \<open>wide_maze\<close> the goal cannot be
  reached from \<open>(0, 2)\<close>, and each search raises \<open>IndexError\<close>: \<open>get_next\<close> reads the cell
  \<open>(0, 3)\<close>, which lies within the stored bounds and outside the grid.
\<close>

theorem ragged_maze_index_error_counterexample:
  "\<not> reachable wide_maze (0, 2) (goal wide_maze)
   \<and> breadth_first_search (0, 2) wide_maze = Some (Inl IndexError, wide_maze)
   \<and> depth_first_search (0, 2) wide_maze = Some (Inl IndexError, wide_maze)
   \<and> greedy_first_search (0, 2) wide_maze = Some (Inl IndexError, wide_maze)
   \<and> astar_first_search (0, 2) wide_maze = Some (Inl IndexError, wide_maze)"
proof (intro conjI)
  show "\<not> reachable wide_maze (0, 2) (goal wide_maze)" by (rule wide_maze_unreachable)
  show "breadth_first_search (0, 2) wide_maze = Some (Inl IndexError, wide_maze)" by code_simp
  show "depth_first_search (0, 2) wide_maze = Some (Inl IndexError, wide_maze)" by code_simp
  show "greedy_first_search (0, 2) wide_maze = Some (Inl IndexError, wide_maze)" by code_simp
  show "astar_first_search (0, 2) wide_maze = Some (Inl IndexError, wide_maze)" by code_simp
qed

text \<open>
  Claim C3, amended.  On a maze whose grid has the stored dimensions, as the grid of every
  constructed maze has, and whose goal cannot be reached from the start coordinate by
  moves onto cells that are not walls, each of the four searches terminates and raises
  the "No solution" exception.  And no search, on any maze and from any start, ever lets
  the "empty frontier" exception of \<open>remove\<close> escape.
\<close>

theorem unreachable_goal_no_solution:
  assumes "well_formed m" and "\<not> reachable m st (goal m)"
  shows "breadth_first_search st m = Some (Inl NoSolution, m)
       \<and> depth_first_search st m = Some (Inl NoSolution, m)
       \<and> greedy_first_search st m = Some (Inl NoSolution, m)
       \<and> astar_first_search st m = Some (Inl NoSolution, m)
       \<and> (\<forall>st2 m2 m'. breadth_first_search st2 m2 \<noteq> Some (Inl EmptyFrontier, m')
             \<and> depth_first_search st2 m2 \<noteq> Some (Inl EmptyFrontier, m')
             \<and> greedy_first_search st2 m2 \<noteq> Some (Inl EmptyFrontier, m')
             \<and> astar_first_search st2 m2 \<noteq> Some (Inl EmptyFrontier, m'))"
proof (intro conjI allI)
  from assms(2) have u: "\<not> reachable m st (get_goal m)" by (simp add: get_goal_def)
  show "breadth_first_search st m = Some (Inl NoSolution, m)"
    unfolding breadth_first_search_def
    by (rule search_loop_no_solution[where goal_of = get_goal,
          OF assms(1) add_ok_stack remove_ok_queue u])
  show "depth_first_search st m = Some (Inl NoSolution, m)"
    unfolding depth_first_search_def
    by (rule search_loop_no_solution[where goal_of = get_goal,
          OF assms(1) add_ok_stack remove_ok_stack u])
  show "greedy_first_search st m = Some (Inl NoSolution, m)"
    unfolding greedy_first_search_def Let_def
    by (rule search_loop_no_solution[where goal_of = "\<lambda>_. get_goal m",
          OF assms(1) add_ok_priority remove_ok_queue u])
  show "astar_first_search st m = Some (Inl NoSolution, m)"
    unfolding astar_first_search_def Let_def
    by (rule search_loop_no_solution[where goal_of = "\<lambda>_. get_goal m",
          OF assms(1) add_ok_priority remove_ok_queue u])
next
  fix st2 m2 m'
  show "breadth_first_search st2 m2 \<noteq> Some (Inl EmptyFrontier, m')"
    unfolding breadth_first_search_def
    using search_loop_no_empty_frontier[OF remove_ok_queue] by blast
  show "depth_first_search st2 m2 \<noteq> Some (Inl EmptyFrontier, m')"
    unfolding depth_first_search_def
    using search_loop_no_empty_frontier[OF remove_ok_stack] by blast
  show "greedy_first_search st2 m2 \<noteq> Some (Inl EmptyFrontier, m')"
    unfolding greedy_first_search_def Let_def
    using search_loop_no_empty_frontier[OF remove_ok_queue] by blast
  show "astar_first_search st2 m2 \<noteq> Some (Inl EmptyFrontier, m')"
    unfolding astar_first_search_def Let_def
    using search_loop_no_empty_frontier[OF remove_ok_queue] by blast
qed

text \<open>A maze whose goal is walled off from the start.\<close>

definition blocked_maze :: Maze where
  "blocked_maze =
     \<lparr>rows = 5, cols = 5,
      maze = [''#####'', ''#S#G#'', ''#####'', ''#####'', ''#####''],
      start = (1, 1), goal = (1, 3)\<rparr>"

lemma blocked_maze_unreachable: "\<not> reachable blocked_maze (1, 1) (goal blocked_maze)"
proof
  assume "reachable blocked_maze (1, 1) (goal blocked_maze)"
  then have "((1, 1), (1, 3)) \<in> (maze_step blocked_maze)\<^sup>*"
    by (simp add: reachable_def blocked_maze_def)
  then show False
  proof (cases rule: converse_rtranclE)
    case base
    then show ?thesis by simp
  next
    case (step y)
    then have "adjacent (1, 1) y" "passable blocked_maze y" by (auto simp: maze_step_def)
    then show ?thesis
      by (auto dest!: adjacent_cases simp: passable_def blocked_maze_def)
  qed
qed

theorem unreachable_goal_no_solution_witness:
  "well_formed blocked_maze \<and> \<not> reachable blocked_maze (1, 1) (goal blocked_maze)
   \<and> breadth_first_search (1, 1) blocked_maze = Some (Inl NoSolution, blocked_maze)
   \<and> depth_first_search (1, 1) blocked_maze = Some (Inl NoSolution, blocked_maze)
   \<and> greedy_first_search (1, 1) blocked_maze = Some (Inl NoSolution, blocked_maze)
   \<and> astar_first_search (1, 1) blocked_maze = Some (Inl NoSolution, blocked_maze)"
proof -
  have wf: "well_formed blocked_maze" by (simp add: well_formed_def blocked_maze_def)
  from unreachable_goal_no_solution[OF wf blocked_maze_unreachable] wf blocked_maze_unreachable
  show ?thesis by blast
qed


subsection \<open>Grids as sets of cells\<close>

definition in_grid :: "int \<Rightarrow> int \<Rightarrow> coord \<Rightarrow> bool" where
  "in_grid rws cls p \<longleftrightarrow> 0 \<le> fst p \<and> fst p < rws \<and> 0 \<le> snd p \<and> snd p < cls"

definition grid_shape :: "grid \<Rightarrow> int \<Rightarrow> int \<Rightarrow> bool" where
  "grid_shape g rws cls \<longleftrightarrow> int (length g) = rws \<and> (\<forall>row \<in> set g. int (length row) = cls)"

definition cell_at :: "grid \<Rightarrow> coord \<Rightarrow> char" where
  "cell_at g p = g ! nat (fst p) ! nat (snd p)"

text \<open>The cells within the bounds that are not walls.\<close>

definition open_cells :: "int \<Rightarrow> int \<Rightarrow> grid \<Rightarrow> coord set" where
  "open_cells rws cls g = {p. in_grid rws cls p \<and> cell_at g p \<noteq> CHR ''#''}"

lemma passable_open_cells: "passable m p \<longleftrightarrow> p \<in> open_cells (rows m) (cols m) (maze m)"
  by (simp add: passable_def open_cells_def in_grid_def cell_at_def)

lemma grid_shape_well_formed:
  "grid_shape (maze m) (rows m) (cols m) \<Longrightarrow> well_formed m"
  by (auto simp: grid_shape_def well_formed_def)

lemma grid_shape_row:
  assumes "grid_shape g rws cls" "0 \<le> r" "r < rws"
  shows "int (length (g ! nat r)) = cls"
proof -
  from assms have "nat r < length g" by (auto simp: grid_shape_def)
  then have "g ! nat r \<in> set g" by simp
  with assms(1) show ?thesis by (simp add: grid_shape_def)
qed

lemma get_cell_shape:
  assumes "grid_shape g rws cls" "in_grid rws cls (r, c)"
  shows "get_cell g r c = Inr (cell_at g (r, c))"
proof -
  from assms have "0 \<le> r" "r < int (length g)" by (auto simp: grid_shape_def in_grid_def)
  moreover from assms grid_shape_row[OF assms(1), of r] have "0 \<le> c" "c < int (length (g ! nat r))"
    by (auto simp: in_grid_def)
  ultimately show ?thesis by (simp add: get_cell_in_bounds cell_at_def)
qed

lemma set_cell_shape:
  assumes "grid_shape g rws cls" "in_grid rws cls (r, c)"
  shows "\<exists>g'. set_cell g r c v = Inr g' \<and> grid_shape g' rws cls
          \<and> (\<forall>q. in_grid rws cls q \<longrightarrow> cell_at g' q = (if q = (r, c) then v else cell_at g q))"
proof -
  from assms have r: "0 \<le> r" "r < int (length g)" by (auto simp: grid_shape_def in_grid_def)
  from assms grid_shape_row[OF assms(1), of r] have c: "0 \<le> c" "c < int (length (g ! nat r))"
    by (auto simp: in_grid_def)
  let ?g' = "g[nat r := (g ! nat r)[nat c := v]]"
  have 1: "set_cell g r c v = Inr ?g'"
    using r c by (simp add: set_cell_def py_index_nonneg)
  have 2: "grid_shape ?g' rws cls"
    unfolding grid_shape_def
  proof (intro conjI ballI)
    show "int (length ?g') = rws" using assms(1) by (simp add: grid_shape_def)
    fix row assume "row \<in> set ?g'"
    then obtain i where i: "i < length g" "row = ?g' ! i"
      by (auto simp: in_set_conv_nth)
    show "int (length row) = cls"
    proof (cases "i = nat r")
      case True
      with i have "length row = length (g ! nat r)" by simp
      moreover from assms(2) have "0 \<le> r" "r < rws" by (simp_all add: in_grid_def)
      from grid_shape_row[OF assms(1) this] have "int (length (g ! nat r)) = cls" .
      ultimately show ?thesis by simp
    next
      case False
      with i have "row = g ! i" by simp
      with i(1) have "row \<in> set g" by simp
      with assms(1) show ?thesis by (simp add: grid_shape_def)
    qed
  qed
  have 3: "cell_at ?g' q = (if q = (r, c) then v else cell_at g q)" if "in_grid rws cls q" for q
  proof -
    obtain qr qc where q: "q = (qr, qc)" by (cases q)
    from that q assms(1) have qb: "0 \<le> qr" "nat qr < length g" "0 \<le> qc"
      by (auto simp: in_grid_def grid_shape_def)
    from that q grid_shape_row[OF assms(1), of qr] have qc: "nat qc < length (g ! nat qr)"
      by (auto simp: in_grid_def)
    show ?thesis
    proof (cases "qr = r")
      case True
      with r c q qb qc show ?thesis
        by (cases "qc = c") (simp_all add: cell_at_def nat_eq_iff)
    next
      case False
      with r qb have "nat qr \<noteq> nat r" by (simp add: nat_eq_iff)
      with q False show ?thesis by (simp add: cell_at_def)
    qed
  qed
  from 1 2 3 show ?thesis by (intro exI[of _ ?g']) simp
qed

lemma set_cell_open:
  assumes "grid_shape g rws cls" "in_grid rws cls (r, c)" "v \<noteq> CHR ''#''"
  shows "\<exists>g'. set_cell g r c v = Inr g' \<and> grid_shape g' rws cls
          \<and> open_cells rws cls g' = insert (r, c) (open_cells rws cls g)
          \<and> (\<forall>q. in_grid rws cls q \<longrightarrow> cell_at g' q = (if q = (r, c) then v else cell_at g q))"
proof -
  from set_cell_shape[OF assms(1,2), of v] obtain g' where
    g': "set_cell g r c v = Inr g'" "grid_shape g' rws cls" and
    c: "\<forall>q. in_grid rws cls q \<longrightarrow> cell_at g' q = (if q = (r, c) then v else cell_at g q)"
    by blast
  have "open_cells rws cls g' = insert (r, c) (open_cells rws cls g)"
  proof (intro set_eqI iffI)
    fix q assume "q \<in> open_cells rws cls g'"
    then have q: "in_grid rws cls q" "cell_at g' q \<noteq> CHR ''#''" by (simp_all add: open_cells_def)
    from c q(1) have "cell_at g' q = (if q = (r, c) then v else cell_at g q)" by blast
    with q show "q \<in> insert (r, c) (open_cells rws cls g)"
      by (cases "q = (r, c)") (simp_all add: open_cells_def)
  next
    fix q assume "q \<in> insert (r, c) (open_cells rws cls g)"
    then have q: "in_grid rws cls q" using assms(2) by (auto simp: open_cells_def)
    with c have "cell_at g' q = (if q = (r, c) then v else cell_at g q)" by blast
    with q assms(3) \<open>q \<in> insert (r, c) (open_cells rws cls g)\<close> show "q \<in> open_cells rws cls g'"
      by (cases "q = (r, c)") (simp_all add: open_cells_def)
  qed
  with g' c show ?thesis by blast
qed


subsection \<open>The carving invariant\<close>

text \<open>The cells of the odd lattice, on which the carving walks.\<close>

definition node_cell :: "coord \<Rightarrow> bool" where
  "node_cell p \<longleftrightarrow> odd (fst p) \<and> odd (snd p)"

text \<open>One move within a set of open cells.\<close>

definition grid_step :: "coord set \<Rightarrow> (coord \<times> coord) set" where
  "grid_step opn = {(p, q). adjacent p q \<and> q \<in> opn}"

text \<open>
  A depth function that makes the open cells a tree rooted at \<open>s\<close>: neighbours differ in
  depth by one, and no cell has two neighbours above it.
\<close>

definition tree_depth :: "coord set \<Rightarrow> coord \<Rightarrow> (coord \<Rightarrow> nat) \<Rightarrow> bool" where
  "tree_depth opn s dep \<longleftrightarrow>
     dep s = 0 \<and>
     (\<forall>p \<in> opn. \<forall>q \<in> opn. adjacent p q \<longrightarrow> dep q = Suc (dep p) \<or> dep p = Suc (dep q)) \<and>
     (\<forall>p \<in> opn. \<forall>q1 \<in> opn. \<forall>q2 \<in> opn.
        adjacent p q1 \<and> adjacent p q2 \<and> dep p = Suc (dep q1) \<and> dep p = Suc (dep q2) \<longrightarrow> q1 = q2)"

definition maze_inv :: "coord \<Rightarrow> coord set \<Rightarrow> coord set \<Rightarrow> bool" where
  "maze_inv s opn pending \<longleftrightarrow>
     s \<in> opn \<and> node_cell s \<and> pending \<subseteq> opn \<and> (\<forall>p \<in> pending. node_cell p) \<and>
     (\<forall>p \<in> opn. odd (fst p) \<or> odd (snd p)) \<and>
     (\<forall>b \<in> opn. \<forall>t. adjacent b t \<and> node_cell t \<longrightarrow> t \<in> opn) \<and>
     (\<forall>p \<in> opn. (s, p) \<in> (grid_step opn)\<^sup>*) \<and>
     (\<exists>dep. tree_depth opn s dep)"

lemma adjacent_sym: "adjacent p q \<longleftrightarrow> adjacent q p"
  by (auto simp: adjacent_def)

lemma adjacent_iff:
  "adjacent (r, c) q \<longleftrightarrow> q = (r, c - 1) \<or> q = (r, c + 1) \<or> q = (r - 1, c) \<or> q = (r + 1, c)"
  by (cases q) (auto simp: adjacent_def)

lemma directions_iff:
  "(dr, dc) \<in> set directions \<longleftrightarrow> (dr = 0 \<and> dc = 1) \<or> (dr = 1 \<and> dc = 0) \<or> (dr = 0 \<and> dc = - 1) \<or> (dr = - 1 \<and> dc = 0)"
  by (auto simp: directions_def)

lemma grid_step_mono: "A \<subseteq> B \<Longrightarrow> (grid_step A)\<^sup>* \<subseteq> (grid_step B)\<^sup>*"
  by (rule rtrancl_mono) (auto simp: grid_step_def)

lemma maze_inv_carve:
  assumes inv: "maze_inv s opn pending"
    and p: "(r, c) \<in> pending"
    and d: "(dr, dc) \<in> set directions"
    and tO: "(r + dr * 2, c + dc * 2) \<notin> opn"
  shows "maze_inv s (insert (r + dr * 2, c + dc * 2) (insert (r + dr, c + dc) opn))
           (insert (r + dr * 2, c + dc * 2) pending)"
proof -
  let ?p = "(r, c)" and ?b = "(r + dr, c + dc)" and ?t = "(r + dr * 2, c + dc * 2)"
  let ?opn = "insert ?t (insert ?b opn)"
  from inv obtain dep where
    s: "s \<in> opn" "node_cell s" and pend: "pending \<subseteq> opn" "\<forall>p \<in> pending. node_cell p" and
    par: "\<forall>p \<in> opn. odd (fst p) \<or> odd (snd p)" and
    link: "\<forall>b \<in> opn. \<forall>t. adjacent b t \<and> node_cell t \<longrightarrow> t \<in> opn" and
    reach: "\<forall>p \<in> opn. (s, p) \<in> (grid_step opn)\<^sup>*" and
    tree: "tree_depth opn s dep"
    unfolding maze_inv_def by blast
  from p pend have pO: "?p \<in> opn" and pn: "odd r" "odd c" by (auto simp: node_cell_def)
  from d have dcases: "(dr = 0 \<and> dc = 1) \<or> (dr = 1 \<and> dc = 0) \<or> (dr = 0 \<and> dc = - 1) \<or> (dr = - 1 \<and> dc = 0)"
    by (simp add: directions_iff)
  have tn: "node_cell ?t" using pn by (simp add: node_cell_def)
  have adj_bt: "adjacent ?b ?t" using dcases by (auto simp: adjacent_def)
  have adj_pb: "adjacent ?p ?b" using dcases by (auto simp: adjacent_def)
  have bO: "?b \<notin> opn" using link adj_bt tn tO by blast
  have bpar: "\<not> node_cell ?b" "odd (fst ?b) \<or> odd (snd ?b)"
    using pn dcases by (auto simp: node_cell_def)
  have nbt: "\<not> adjacent x ?t" if "x \<in> opn" for x
    using link that tn tO by blast
  have nbb: "x = ?p" if "x \<in> opn" "adjacent x ?b" for x
  proof -
    from that(2) have "adjacent ?b x" by (simp add: adjacent_sym)
    then have "x = (r + dr, c + dc - 1) \<or> x = (r + dr, c + dc + 1)
        \<or> x = (r + dr - 1, c + dc) \<or> x = (r + dr + 1, c + dc)"
      by (simp add: adjacent_iff)
    moreover from par that(1) have "odd (fst x) \<or> odd (snd x)" by blast
    moreover from that(1) tO have "x \<noteq> ?t" by blast
    ultimately show ?thesis using dcases pn by auto
  qed
  have neq: "?b \<noteq> ?t" "?p \<noteq> ?b" "?p \<noteq> ?t" using dcases by auto
  have not_adj_pt: "\<not> adjacent ?p ?t" using dcases by (auto simp: adjacent_def)
  have not_adj_self: "\<not> adjacent x x" for x by (simp add: adjacent_def)
  show ?thesis
    unfolding maze_inv_def
  proof (intro conjI)
    show "s \<in> ?opn" using s by simp
    show "node_cell s" by (rule s)
    show "insert ?t pending \<subseteq> ?opn" using pend by auto
    show "\<forall>p \<in> insert ?t pending. node_cell p" using pend tn by auto
    show "\<forall>p \<in> ?opn. odd (fst p) \<or> odd (snd p)" using par bpar tn by (auto simp: node_cell_def)
    show "\<forall>b \<in> ?opn. \<forall>t. adjacent b t \<and> node_cell t \<longrightarrow> t \<in> ?opn"
    proof (intro ballI allI impI)
      fix x y assume x: "x \<in> ?opn" and y: "adjacent x y \<and> node_cell y"
      consider "x \<in> opn" | "x = ?b" | "x = ?t" using x by blast
      then show "y \<in> ?opn"
      proof cases
        case 1
        with link y show ?thesis by blast
      next
        case 2
        with y have "y = (r + dr, c + dc - 1) \<or> y = (r + dr, c + dc + 1)
            \<or> y = (r + dr - 1, c + dc) \<or> y = (r + dr + 1, c + dc)" by (simp add: adjacent_iff)
        with y pO dcases pn show ?thesis by (auto simp: node_cell_def)
      next
        case 3
        with y have "y = (r + dr * 2, c + dc * 2 - 1) \<or> y = (r + dr * 2, c + dc * 2 + 1)
            \<or> y = (r + dr * 2 - 1, c + dc * 2) \<or> y = (r + dr * 2 + 1, c + dc * 2)"
          by (simp add: adjacent_iff)
        with y pn show ?thesis by (auto simp: node_cell_def)
      qed
    qed
    show "\<forall>p \<in> ?opn. (s, p) \<in> (grid_step ?opn)\<^sup>*"
    proof
      fix x assume x: "x \<in> ?opn"
      have mono: "(grid_step opn)\<^sup>* \<subseteq> (grid_step ?opn)\<^sup>*" by (rule grid_step_mono) auto
      from reach pO mono have sp: "(s, ?p) \<in> (grid_step ?opn)\<^sup>*" by blast
      have "(?p, ?b) \<in> grid_step ?opn" using adj_pb by (simp add: grid_step_def)
      with sp have sb: "(s, ?b) \<in> (grid_step ?opn)\<^sup>*" by (rule rtrancl_into_rtrancl)
      have "(?b, ?t) \<in> grid_step ?opn" using adj_bt by (simp add: grid_step_def)
      with sb have st: "(s, ?t) \<in> (grid_step ?opn)\<^sup>*" by (rule rtrancl_into_rtrancl)
      consider "x \<in> opn" | "x = ?b" | "x = ?t" using x by blast
      then show "(s, x) \<in> (grid_step ?opn)\<^sup>*"
      proof cases
        case 1
        with reach mono show ?thesis by blast
      qed (use sb st in simp_all)
    qed
    let ?dep = "dep(?b := Suc (dep ?p), ?t := Suc (Suc (dep ?p)))"
    have dO: "?dep x = dep x" if "x \<in> opn" for x using that bO tO by auto
    have db: "?dep ?b = Suc (dep ?p)" using neq by simp
    have dt: "?dep ?t = Suc (Suc (dep ?p))" by simp
    from tree have t1: "dep s = 0"
      and t2: "\<And>x y. x \<in> opn \<Longrightarrow> y \<in> opn \<Longrightarrow> adjacent x y \<Longrightarrow> dep y = Suc (dep x) \<or> dep x = Suc (dep y)"
      and t3: "\<And>x y z. x \<in> opn \<Longrightarrow> y \<in> opn \<Longrightarrow> z \<in> opn \<Longrightarrow> adjacent x y \<Longrightarrow> adjacent x z \<Longrightarrow>
                  dep x = Suc (dep y) \<Longrightarrow> dep x = Suc (dep z) \<Longrightarrow> y = z"
      unfolding tree_depth_def by blast+
    text \<open>The neighbours of each new cell among the open cells.\<close>
    have nb_b: "y = ?p \<or> y = ?t" if "y \<in> ?opn" "adjacent ?b y" for y
      using that nbb[of y] not_adj_self[of ?b] by (auto simp: adjacent_sym)
    have nb_t: "y = ?b" if "y \<in> ?opn" "adjacent ?t y" for y
      using that nbt[of y] not_adj_self[of ?t] by (auto simp: adjacent_sym)
    have nb_O: "y \<in> opn \<or> (x = ?p \<and> y = ?b)" if "x \<in> opn" "y \<in> ?opn" "adjacent x y" for x y
      using that nbb[of x] nbt[of x] by auto
    have "tree_depth ?opn s ?dep"
      unfolding tree_depth_def
    proof (intro conjI ballI impI)
      show "?dep s = 0" using t1 dO[OF s(1)] by simp
    next
      fix x y assume x: "x \<in> ?opn" and y: "y \<in> ?opn" and a: "adjacent x y"
      consider "x \<in> opn" | "x = ?b" | "x = ?t" using x by blast
      then show "?dep y = Suc (?dep x) \<or> ?dep x = Suc (?dep y)"
      proof cases
        case 1
        from nb_O[OF 1 y a] show ?thesis
        proof
          assume "y \<in> opn"
          with 1 a t2 dO show ?thesis by simp
        next
          assume "x = ?p \<and> y = ?b"
          with db dO[OF pO] show ?thesis by simp
        qed
      next
        case 2
        with nb_b[OF y] a have "y = ?p \<or> y = ?t" by simp
        with 2 db dt dO[OF pO] show ?thesis by auto
      next
        case 3
        with nb_t[OF y] a have "y = ?b" by simp
        with 3 db dt show ?thesis by simp
      qed
    next
      fix x y z assume x: "x \<in> ?opn" and y: "y \<in> ?opn" and z: "z \<in> ?opn"
        and a: "adjacent x y \<and> adjacent x z \<and> ?dep x = Suc (?dep y) \<and> ?dep x = Suc (?dep z)"
      consider "x \<in> opn" | "x = ?b" | "x = ?t" using x by blast
      then show "y = z"
      proof cases
        case 1
        have "y \<in> opn"
          using nb_O[OF 1 y] a db dO[OF pO] by auto
        moreover have "z \<in> opn"
          using nb_O[OF 1 z] a db dO[OF pO] by auto
        ultimately show ?thesis using 1 a t3[of x y z] dO by simp
      next
        case 2
        have "y = ?p" using nb_b[OF y] a 2 db dt by auto
        moreover have "z = ?p" using nb_b[OF z] a 2 db dt by auto
        ultimately show ?thesis by simp
      next
        case 3
        have "y = ?b" using nb_t[OF y] a 3 by simp
        moreover have "z = ?b" using nb_t[OF z] a 3 by simp
        ultimately show ?thesis by simp
      qed
    qed
    then show "\<exists>dep. tree_depth ?opn s dep" by blast
  qed
qed


text \<open>
  The invariant of the carving loop on the grid itself: the open cells satisfy \<open>maze_inv\<close>,
  the start carries its mark and every other open cell is blank, and an open lattice cell
  that is no longer pending has all its lattice neighbours within the grid open.
\<close>

definition carve_inv :: "int \<Rightarrow> int \<Rightarrow> coord \<Rightarrow> grid \<Rightarrow> coord set \<Rightarrow> bool" where
  "carve_inv rws cls s g pending \<longleftrightarrow>
     grid_shape g rws cls \<and>
     maze_inv s (open_cells rws cls g) pending \<and>
     cell_at g s = CHR ''S'' \<and>
     (\<forall>p \<in> open_cells rws cls g. p \<noteq> s \<longrightarrow> cell_at g p = CHR '' '') \<and>
     (\<forall>p \<in> open_cells rws cls g. node_cell p \<and> p \<notin> pending \<longrightarrow>
        (\<forall>d \<in> set directions.
           in_grid rws cls (fst p + fst d * 2, snd p + snd d * 2) \<longrightarrow>
           (fst p + fst d * 2, snd p + snd d * 2) \<in> open_cells rws cls g))"

lemma open_cells_in_grid: "p \<in> open_cells rws cls g \<Longrightarrow> in_grid rws cls p"
  by (simp add: open_cells_def)

lemma between_in_grid:
  assumes "in_grid rws cls (r, c)" "in_grid rws cls (r + dr * 2, c + dc * 2)"
  shows "in_grid rws cls (r + dr, c + dc)"
  using assms unfolding in_grid_def by auto

lemma carve_one:
  assumes inv: "carve_inv rws cls s g pending"
    and p: "(r, c) \<in> pending"
    and d: "(dr, dc) \<in> set directions"
    and tg: "in_grid rws cls (r + dr * 2, c + dc * 2)"
    and tw: "cell_at g (r + dr * 2, c + dc * 2) = CHR ''#''"
  shows "\<exists>g1 g2. set_cell g (r + dr) (c + dc) CHR '' '' = Inr g1
           \<and> set_cell g1 (r + dr * 2) (c + dc * 2) CHR '' '' = Inr g2
           \<and> carve_inv rws cls s g2 (insert (r + dr * 2, c + dc * 2) pending)
           \<and> open_cells rws cls g \<subseteq> open_cells rws cls g2
           \<and> (r + dr * 2, c + dc * 2) \<in> open_cells rws cls g2"
proof -
  let ?b = "(r + dr, c + dc)" and ?t = "(r + dr * 2, c + dc * 2)"
  let ?O = "open_cells rws cls g"
  from inv have shape: "grid_shape g rws cls" and mi: "maze_inv s ?O pending"
    and sS: "cell_at g s = CHR ''S''"
    and blank: "\<forall>p \<in> ?O. p \<noteq> s \<longrightarrow> cell_at g p = CHR '' ''"
    and full: "\<forall>p \<in> ?O. node_cell p \<and> p \<notin> pending \<longrightarrow>
        (\<forall>d \<in> set directions.
           in_grid rws cls (fst p + fst d * 2, snd p + snd d * 2) \<longrightarrow>
           (fst p + fst d * 2, snd p + snd d * 2) \<in> ?O)"
    unfolding carve_inv_def by blast+
  from mi p have pO: "(r, c) \<in> ?O" and sO: "s \<in> ?O" and sn: "node_cell s"
    and pn: "node_cell (r, c)"
    unfolding maze_inv_def by blast+
  from tw have tO: "?t \<notin> ?O" by (simp add: open_cells_def)
  from between_in_grid[OF open_cells_in_grid[OF pO] tg] have bg: "in_grid rws cls ?b" .
  from set_cell_open[OF shape bg, of "CHR '' ''"] obtain g1 where
    g1: "set_cell g (r + dr) (c + dc) CHR '' '' = Inr g1" "grid_shape g1 rws cls"
    "open_cells rws cls g1 = insert ?b ?O" and
    c1: "\<forall>q. in_grid rws cls q \<longrightarrow> cell_at g1 q = (if q = ?b then CHR '' '' else cell_at g q)"
    by auto
  from set_cell_open[OF g1(2) tg, of "CHR '' ''"] obtain g2 where
    g2: "set_cell g1 (r + dr * 2) (c + dc * 2) CHR '' '' = Inr g2" "grid_shape g2 rws cls"
    "open_cells rws cls g2 = insert ?t (open_cells rws cls g1)" and
    c2: "\<forall>q. in_grid rws cls q \<longrightarrow> cell_at g2 q = (if q = ?t then CHR '' '' else cell_at g1 q)"
    by auto
  have O2: "open_cells rws cls g2 = insert ?t (insert ?b ?O)" using g1(3) g2(3) by simp
  have cells: "cell_at g2 q = (if q = ?t \<or> q = ?b then CHR '' '' else cell_at g q)"
    if "in_grid rws cls q" for q
  proof -
    from c1 that have "cell_at g1 q = (if q = ?b then CHR '' '' else cell_at g q)" by blast
    moreover from c2 that have "cell_at g2 q = (if q = ?t then CHR '' '' else cell_at g1 q)" by blast
    ultimately show ?thesis by presburger
  qed
  from d pn have bnn: "\<not> node_cell ?b"
    by (auto simp: directions_iff node_cell_def)
  with sn have sb: "s \<noteq> ?b" by auto
  from sO tO have st: "s \<noteq> ?t" by auto
  have mi2: "maze_inv s (open_cells rws cls g2) (insert ?t pending)"
    unfolding O2 by (rule maze_inv_carve[OF mi p d tO])
  have "carve_inv rws cls s g2 (insert ?t pending)"
    unfolding carve_inv_def
  proof (intro conjI ballI impI)
    show "grid_shape g2 rws cls" by (rule g2(2))
    show "maze_inv s (open_cells rws cls g2) (insert ?t pending)" by (rule mi2)
    show "cell_at g2 s = CHR ''S''"
      using cells[OF open_cells_in_grid[OF sO]] sb st sS by simp
  next
    fix q assume q: "q \<in> open_cells rws cls g2" "q \<noteq> s"
    from q(1) have "in_grid rws cls q" by (rule open_cells_in_grid)
    from cells[OF this] q blank O2 show "cell_at g2 q = CHR '' ''" by auto
  next
    fix q e assume q: "q \<in> open_cells rws cls g2" "node_cell q \<and> q \<notin> insert ?t pending"
      and e: "e \<in> set directions" "in_grid rws cls (fst q + fst e * 2, snd q + snd e * 2)"
    from q bnn O2 have "q \<in> ?O" "node_cell q \<and> q \<notin> pending" by auto
    with full e have "(fst q + fst e * 2, snd q + snd e * 2) \<in> ?O" by blast
    then show "(fst q + fst e * 2, snd q + snd e * 2) \<in> open_cells rws cls g2"
      unfolding O2 by simp
  qed
  with g1(1) g2(1) O2 show ?thesis by auto
qed

lemma carve_inv_target_open:
  assumes "carve_inv rws cls s g pending" "in_grid rws cls t" "cell_at g t \<noteq> CHR ''#''"
  shows "t \<in> open_cells rws cls g"
  using assms by (simp add: open_cells_def)

lemma carve_dirs_inv:
  assumes "carve_inv rws cls s g (insert (r, c) (set stk))"
    and "set ds \<subseteq> set directions"
    and "\<forall>d \<in> D. in_grid rws cls (r + fst d * 2, c + snd d * 2) \<longrightarrow>
            (r + fst d * 2, c + snd d * 2) \<in> open_cells rws cls g"
  shows "\<exists>g' stk'. carve_dirs rws cls r c ds g stk = Inr (g', stk')
           \<and> carve_inv rws cls s g' (insert (r, c) (set stk'))
           \<and> (\<forall>d \<in> D \<union> set ds. in_grid rws cls (r + fst d * 2, c + snd d * 2) \<longrightarrow>
                  (r + fst d * 2, c + snd d * 2) \<in> open_cells rws cls g')"
  using assms
proof (induction ds arbitrary: g stk D)
  case Nil
  then show ?case by simp
next
  case (Cons d ds)
  obtain dr dc where d: "d = (dr, dc)" by (cases d)
  let ?t = "(r + dr * 2, c + dc * 2)"
  from Cons.prems(2) d have dd: "(dr, dc) \<in> set directions" and ds: "set ds \<subseteq> set directions"
    by auto
  from Cons.prems(1) have shape: "grid_shape g rws cls" by (simp add: carve_inv_def)
  show ?case
  proof (cases "in_grid rws cls ?t")
    case False
    then have eq: "carve_dirs rws cls r c (d # ds) g stk = carve_dirs rws cls r c ds g stk"
      by (auto simp: d in_grid_def Let_def)
    have "\<forall>e \<in> insert d D. in_grid rws cls (r + fst e * 2, c + snd e * 2) \<longrightarrow>
            (r + fst e * 2, c + snd e * 2) \<in> open_cells rws cls g"
      using Cons.prems(3) False d by auto
    from Cons.IH[OF Cons.prems(1) ds this] eq show ?thesis by auto
  next
    case True
    then have bounds: "0 \<le> r + dr * 2 \<and> r + dr * 2 < rws \<and> 0 \<le> c + dc * 2 \<and> c + dc * 2 < cls"
      by (simp add: in_grid_def)
    from get_cell_shape[OF shape True] have gc: "get_cell g (r + dr * 2) (c + dc * 2) = Inr (cell_at g ?t)" .
    show ?thesis
    proof (cases "cell_at g ?t = CHR ''#''")
      case False
      with bounds gc have eq: "carve_dirs rws cls r c (d # ds) g stk = carve_dirs rws cls r c ds g stk"
        by (simp add: d Let_def)
      from False True have "?t \<in> open_cells rws cls g" by (simp add: open_cells_def)
      then have "\<forall>e \<in> insert d D. in_grid rws cls (r + fst e * 2, c + snd e * 2) \<longrightarrow>
            (r + fst e * 2, c + snd e * 2) \<in> open_cells rws cls g"
        using Cons.prems(3) d by auto
      from Cons.IH[OF Cons.prems(1) ds this] eq show ?thesis by auto
    next
      case wall: True
      from carve_one[OF Cons.prems(1) _ dd True wall] obtain g1 g2 where
        s1: "set_cell g (r + dr) (c + dc) CHR '' '' = Inr g1" and
        s2: "set_cell g1 (r + dr * 2) (c + dc * 2) CHR '' '' = Inr g2" and
        inv2: "carve_inv rws cls s g2 (insert ?t (insert (r, c) (set stk)))" and
        mono: "open_cells rws cls g \<subseteq> open_cells rws cls g2" and
        topen: "?t \<in> open_cells rws cls g2"
        by auto
      from bounds gc wall s1 s2
      have eq: "carve_dirs rws cls r c (d # ds) g stk = carve_dirs rws cls r c ds g2 (stk @ [?t])"
        by (simp add: d Let_def)
      from inv2 have inv2': "carve_inv rws cls s g2 (insert (r, c) (set (stk @ [?t])))"
        by (simp add: insert_commute)
      have "\<forall>e \<in> insert d D. in_grid rws cls (r + fst e * 2, c + snd e * 2) \<longrightarrow>
            (r + fst e * 2, c + snd e * 2) \<in> open_cells rws cls g2"
        using Cons.prems(3) d mono topen by auto
      from Cons.IH[OF inv2' ds this] eq show ?thesis by auto
    qed
  qed
qed

lemma set_biased_dirs: "set (biased_dirs key) = set directions"
proof -
  have "map fst (zip directions (map key [0..<length directions])) = directions"
    by (simp add: directions_def)
  then have "fst ` set (zip directions (map key [0..<length directions])) = set directions"
    by (metis set_map)
  then show ?thesis by (simp add: biased_dirs_def del: sort_key_simps)
qed

lemma carve_inv_done:
  assumes "carve_inv rws cls s g (insert p pending)"
    and "\<forall>d \<in> set directions. in_grid rws cls (fst p + fst d * 2, snd p + snd d * 2) \<longrightarrow>
            (fst p + fst d * 2, snd p + snd d * 2) \<in> open_cells rws cls g"
  shows "carve_inv rws cls s g pending"
  using assms unfolding carve_inv_def maze_inv_def by auto

lemma carve_loop_inv:
  assumes "carve_inv rws cls s g (set stack)"
  shows "\<exists>g'. carve_loop rws cls keys k g stack = Inr g' \<and> carve_inv rws cls s g' {}"
  using assms
proof (induction rws cls keys k g stack rule: carve_loop.induct)
  case (1 rws cls keys k g stack)
  show ?case
  proof (cases "stack = []")
    case True
    with "1.prems" show ?thesis by (subst carve_loop.simps) simp
  next
    case False
    obtain r c where p: "last stack = (r, c)" by (cases "last stack")
    from False have "set stack = insert (last stack) (set (butlast stack))"
      by (metis append_butlast_last_id insert_is_Un list.simps(15) set_append sup_commute
          empty_set)
    with "1.prems" p have inv: "carve_inv rws cls s g (insert (r, c) (set (butlast stack)))"
      by simp
    from carve_dirs_inv[OF inv, of "biased_dirs (keys k)" "{}"]
    obtain g' stk' where
      cd: "carve_dirs rws cls r c (biased_dirs (keys k)) g (butlast stack) = Inr (g', stk')" and
      inv': "carve_inv rws cls s g' (insert (r, c) (set stk'))" and
      full: "\<forall>d \<in> set directions. in_grid rws cls (r + fst d * 2, c + snd d * 2) \<longrightarrow>
                  (r + fst d * 2, c + snd d * 2) \<in> open_cells rws cls g'"
      by (auto simp: set_biased_dirs)
    from carve_inv_done[OF inv'] full have inv'': "carve_inv rws cls s g' (set stk')" by simp
    from cd p have cd': "carve_dirs rws cls (fst (last stack)) (snd (last stack))
        (biased_dirs (keys k)) g (butlast stack) = Inr (g', stk')" by simp
    from "1.IH"[OF False cd' refl inv'']
    obtain g'' where "carve_loop rws cls keys (Suc k) g' stk' = Inr g''"
      "carve_inv rws cls s g'' {}" by auto
    with False cd p show ?thesis by (subst carve_loop.simps) simp
  qed
qed

subsection \<open>The farthest point\<close>

lemma ffp_neighbours_shape:
  assumes "grid_shape g rws cls"
  shows "ffp_neighbours g r c dist ds queue =
     Inr (queue @ map (\<lambda>d. (r + fst d, c + snd d, dist + 1))
            (filter (\<lambda>d. in_grid rws cls (r + fst d, c + snd d)
                        \<and> cell_at g (r + fst d, c + snd d) = CHR '' '') ds))"
proof (induction ds arbitrary: queue)
  case Nil
  then show ?case by simp
next
  case (Cons d ds)
  obtain dr dc where d: "d = (dr, dc)" by (cases d)
  have bounds: "(0 \<le> r + dr \<and> r + dr < int (length g) \<and> 0 \<le> c + dc \<and> c + dc < int (length (g ! 0)))
      \<longleftrightarrow> in_grid rws cls (r + dr, c + dc)"
  proof (cases "0 < rws")
    case True
    with grid_shape_row[OF assms, of 0] have "int (length (g ! 0)) = cls" by simp
    with assms show ?thesis by (auto simp: in_grid_def grid_shape_def)
  next
    case False
    with assms show ?thesis by (auto simp: in_grid_def grid_shape_def)
  qed
  show ?case
  proof (cases "in_grid rws cls (r + dr, c + dc)")
    case True
    with bounds have nb: "0 \<le> r + dr \<and> r + dr < int (length g) \<and> 0 \<le> c + dc
        \<and> c + dc < int (length (g ! 0))" by simp
    have "ffp_neighbours g r c dist (d # ds) queue =
        (if cell_at g (r + dr, c + dc) = CHR '' ''
         then ffp_neighbours g r c dist ds (queue @ [(r + dr, c + dc, dist + 1)])
         else ffp_neighbours g r c dist ds queue)"
      by (simp only: d ffp_neighbours.simps Let_def nb if_True get_cell_shape[OF assms True]
          sum.case simp_thms)
    with Cons.IH True show ?thesis by (simp add: d)
  next
    case False
    with bounds have nb: "\<not> (0 \<le> r + dr \<and> r + dr < int (length g) \<and> 0 \<le> c + dc
        \<and> c + dc < int (length (g ! 0)))" by simp
    have "ffp_neighbours g r c dist (d # ds) queue = ffp_neighbours g r c dist ds queue"
      by (simp only: d ffp_neighbours.simps Let_def nb if_False)
    with Cons.IH False show ?thesis by (simp add: d)
  qed
qed

lemma ffp_loop_Nil: "ffp_loop g visited [] farthest max_dist = Inr farthest"
  by (subst ffp_loop.simps) simp

lemma ffp_loop_visited:
  "(r, c) \<in> visited \<Longrightarrow>
     ffp_loop g visited ((r, c, dist) # queue) farthest max_dist
       = ffp_loop g visited queue farthest max_dist"
  by (subst ffp_loop.simps) simp

lemma ffp_loop_new:
  "(r, c) \<notin> visited \<Longrightarrow> ffp_neighbours g r c dist ffp_dirs queue = Inr queue2 \<Longrightarrow>
     ffp_loop g visited ((r, c, dist) # queue) farthest max_dist
       = (if dist > max_dist then ffp_loop g (insert (r, c) visited) queue2 (r, c) dist
          else ffp_loop g (insert (r, c) visited) queue2 farthest max_dist)"
  by (subst ffp_loop.simps) simp

declare ffp_loop.simps [simp del]

lemma ffp_loop_error:
  "(r, c) \<notin> visited \<Longrightarrow> ffp_neighbours g r c dist ffp_dirs queue = Inl err \<Longrightarrow>
     ffp_loop g visited ((r, c, dist) # queue) farthest max_dist = Inl err"
  by (subst ffp_loop.simps) simp

text \<open>The start, or a blank cell of the grid.\<close>

definition blank_or :: "grid \<Rightarrow> int \<Rightarrow> int \<Rightarrow> coord \<Rightarrow> coord \<Rightarrow> bool" where
  "blank_or g rws cls s p \<longleftrightarrow> p = s \<or> (in_grid rws cls p \<and> cell_at g p = CHR '' '')"

lemma ffp_neighbours_blank:
  assumes "grid_shape g rws cls" "\<forall>e \<in> set queue. blank_or g rws cls s (fst e, fst (snd e))"
  shows "\<exists>queue2. ffp_neighbours g r c dist ds queue = Inr queue2
           \<and> (\<forall>e \<in> set queue2. blank_or g rws cls s (fst e, fst (snd e)))"
  using assms(2) by (auto simp: ffp_neighbours_shape[OF assms(1)] blank_or_def)

lemma ffp_loop_result:
  assumes "grid_shape g rws cls"
    and "\<forall>e \<in> set queue. blank_or g rws cls s (fst e, fst (snd e))"
    and "blank_or g rws cls s farthest"
  shows "\<exists>gl. ffp_loop g visited queue farthest max_dist = Inr gl \<and> blank_or g rws cls s gl"
  using assms
proof (induction g visited queue farthest max_dist rule: ffp_loop.induct)
  case (1 g visited queue farthest max_dist)
  show ?case
  proof (cases queue)
    case Nil
    with "1.prems" show ?thesis by (simp add: ffp_loop_Nil)
  next
    case (Cons e queue1)
    obtain r c dist where e: "e = (r, c, dist)" by (cases e)
    from "1.prems"(2) Cons e have q1: "\<forall>e \<in> set queue1. blank_or g rws cls s (fst e, fst (snd e))"
      and rc: "blank_or g rws cls s (r, c)" by auto
    show ?thesis
    proof (cases "(r, c) \<in> visited")
      case True
      from "1.IH"(1)[OF Cons _ _ True "1.prems"(1) q1 "1.prems"(3), of "(c, dist)" dist] e
      show ?thesis by (simp add: Cons e ffp_loop_visited[OF True])
    next
      case False
      from ffp_neighbours_blank[OF "1.prems"(1) q1, of r c dist ffp_dirs] obtain queue2 where
        nb: "ffp_neighbours g r c dist ffp_dirs queue1 = Inr queue2" and
        q2: "\<forall>e \<in> set queue2. blank_or g rws cls s (fst e, fst (snd e))" by blast
      show ?thesis
      proof (cases "max_dist < dist")
        case True
        from "1.IH"(2)[OF Cons _ _ False nb True "1.prems"(1) q2 rc, of "(c, dist)"] e
        show ?thesis by (simp add: Cons e ffp_loop_new[OF False nb] True)
      next
        case nt: False
        from "1.IH"(3)[OF Cons _ _ False nb nt "1.prems"(1) q2 "1.prems"(3), of "(c, dist)"] e
        show ?thesis by (simp add: Cons e ffp_loop_new[OF False nb] nt)
      qed
    qed
  qed
qed

lemma ffp_neighbours_dist:
  "ffp_neighbours g r c dist ds queue = Inr queue2 \<Longrightarrow>
     \<forall>e \<in> set queue2. e \<in> set queue \<or> snd (snd e) = dist + 1"
proof (induction ds arbitrary: queue)
  case Nil
  then show ?case by simp
next
  case (Cons d ds)
  obtain dr dc where d: "d = (dr, dc)" by (cases d)
  from Cons.prems d
  consider "ffp_neighbours g r c dist ds (queue @ [(r + dr, c + dc, dist + 1)]) = Inr queue2"
    | "ffp_neighbours g r c dist ds queue = Inr queue2"
    by (auto simp: Let_def split: if_splits sum.splits)
  then show ?case
  proof cases
    case 1
    from Cons.IH[OF 1] show ?thesis by auto
  next
    case 2
    from Cons.IH[OF 2] show ?thesis .
  qed
qed

lemma ffp_loop_moves:
  assumes "s \<in> visited" "0 \<le> max_dist"
    and "1 \<le> max_dist \<or> (\<exists>e \<in> set queue. (fst e, fst (snd e)) \<notin> visited)"
    and "1 \<le> max_dist \<longrightarrow> farthest \<noteq> s"
    and "\<forall>e \<in> set queue. 1 \<le> snd (snd e)"
    and "ffp_loop g visited queue farthest max_dist = Inr gl"
  shows "gl \<noteq> s"
  using assms
proof (induction g visited queue farthest max_dist rule: ffp_loop.induct)
  case (1 g visited queue farthest max_dist)
  show ?case
  proof (cases queue)
    case Nil
    with "1.prems" show ?thesis by (auto simp: ffp_loop_Nil)
  next
    case (Cons e queue1)
    obtain r c dist where e: "e = (r, c, dist)" by (cases e)
    from "1.prems"(5) Cons e have d1: "1 \<le> dist" and q1: "\<forall>e \<in> set queue1. 1 \<le> snd (snd e)"
      by auto
    show ?thesis
    proof (cases "(r, c) \<in> visited")
      case True
      from "1.prems"(3) Cons e True
      have B: "1 \<le> max_dist \<or> (\<exists>e \<in> set queue1. (fst e, fst (snd e)) \<notin> visited)" by auto
      from "1.prems"(6) have res: "ffp_loop g visited queue1 farthest max_dist = Inr gl"
        by (simp add: Cons e ffp_loop_visited[OF True])
      from "1.IH"(1)[OF Cons _ _ True "1.prems"(1,2) B "1.prems"(4) q1 res, of "(c, dist)" dist] e
      show ?thesis by simp
    next
      case False
      show ?thesis
      proof (cases "ffp_neighbours g r c dist ffp_dirs queue1")
        case (Inl err)
        with "1.prems"(6) False show ?thesis
          by (simp add: Cons e ffp_loop_error)
      next
        case (Inr queue2)
        have q2: "\<forall>e \<in> set queue2. 1 \<le> snd (snd e)"
          using ffp_neighbours_dist[OF Inr] q1 d1 by fastforce
        from False "1.prems"(1) have ne: "(r, c) \<noteq> s" by auto
        show ?thesis
        proof (cases "max_dist < dist")
          case True
          from "1.prems"(6) have res: "ffp_loop g (insert (r, c) visited) queue2 (r, c) dist = Inr gl"
            by (simp add: Cons e ffp_loop_new[OF False Inr] True)
          from "1.IH"(2)[OF Cons _ _ False Inr True _ _ _ _ q2 res, of "(c, dist)"] e
            "1.prems"(1) d1 ne
          show ?thesis by simp
        next
          case nt: False
          with d1 have m1: "1 \<le> max_dist" by simp
          from "1.prems"(6) have res: "ffp_loop g (insert (r, c) visited) queue2 farthest max_dist = Inr gl"
            by (simp add: Cons e ffp_loop_new[OF False Inr] nt)
          from "1.IH"(3)[OF Cons _ _ False Inr nt _ "1.prems"(2) _ "1.prems"(4) q2 res, of "(c, dist)"] e
            "1.prems"(1) m1
          show ?thesis by simp
        qed
      qed
    qed
  qed
qed

lemma ffp_dirs_adjacent:
  assumes "adjacent (sr, sc) q"
  shows "\<exists>d. d \<in> set ffp_dirs \<and> q = (sr + fst d, sc + snd d)"
proof -
  from assms have "q = (sr, sc - 1) \<or> q = (sr, sc + 1) \<or> q = (sr - 1, sc) \<or> q = (sr + 1, sc)"
    by (simp only: adjacent_iff)
  then show ?thesis
  proof (elim disjE)
    assume "q = (sr, sc - 1)"
    then show ?thesis by (intro exI[of _ "(0, - 1)"]) (simp add: ffp_dirs_def)
  next
    assume "q = (sr, sc + 1)"
    then show ?thesis by (intro exI[of _ "(0, 1)"]) (simp add: ffp_dirs_def)
  next
    assume "q = (sr - 1, sc)"
    then show ?thesis by (intro exI[of _ "(- 1, 0)"]) (simp add: ffp_dirs_def)
  next
    assume "q = (sr + 1, sc)"
    then show ?thesis by (intro exI[of _ "(1, 0)"]) (simp add: ffp_dirs_def)
  qed
qed

lemma find_farthest_point_result:
  assumes shape: "grid_shape g rws cls"
  shows "\<exists>gl. find_farthest_point g s = Inr gl \<and> blank_or g rws cls s gl
           \<and> ((\<exists>q. adjacent s q \<and> in_grid rws cls q \<and> cell_at g q = CHR '' '') \<longrightarrow> gl \<noteq> s)"
proof -
  obtain sr sc where s: "s = (sr, sc)" by (cases s)
  have q0: "\<forall>e \<in> set [(sr, sc, 0 :: int)]. blank_or g rws cls s (fst e, fst (snd e))"
    by (simp add: blank_or_def s)
  have f0: "blank_or g rws cls s s" by (simp add: blank_or_def)
  from ffp_loop_result[OF shape q0 f0, of "{}" "- 1"] obtain gl where
    gl: "ffp_loop g {} [(sr, sc, 0)] s (- 1) = Inr gl" "blank_or g rws cls s gl"
    by blast
  have "gl \<noteq> s" if "adjacent s q" "in_grid rws cls q" "cell_at g q = CHR '' ''" for q
  proof -
    let ?P = "\<lambda>d. in_grid rws cls (sr + fst d, sc + snd d)
                        \<and> cell_at g (sr + fst d, sc + snd d) = CHR '' ''"
    let ?q2 = "map (\<lambda>d. (sr + fst d, sc + snd d, 1 :: int)) (filter ?P ffp_dirs)"
    have nb: "ffp_neighbours g sr sc 0 ffp_dirs [] = Inr ?q2"
      by (simp add: ffp_neighbours_shape[OF shape])
    have "ffp_loop g {} [(sr, sc, 0)] s (- 1) = ffp_loop g (insert (sr, sc) {}) ?q2 (sr, sc) 0"
      by (subst ffp_loop_new[OF _ nb]) simp_all
    with gl(1) have res: "ffp_loop g {s} ?q2 s 0 = Inr gl" by (simp only: s)
    from that(1) ffp_dirs_adjacent[of sr sc q]
    obtain d where d: "d \<in> set ffp_dirs" "q = (sr + fst d, sc + snd d)"
      unfolding s by blast
    from d(2) that(2,3) have "?P d" by simp
    with d(1) have "d \<in> set (filter ?P ffp_dirs)" by simp
    then have "(sr + fst d, sc + snd d, 1) \<in> set ?q2" by (simp only: set_map) (rule imageI)
    moreover from that(1) have "q \<noteq> s" by (auto simp: adjacent_def)
    ultimately have "\<exists>e \<in> set ?q2. (fst e, fst (snd e)) \<notin> {s}"
      using d(2) by (intro bexI[of _ "(sr + fst d, sc + snd d, 1)"]) simp_all
    then have B: "1 \<le> (0 :: int) \<or> (\<exists>e \<in> set ?q2. (fst e, fst (snd e)) \<notin> {s})" ..
    have D: "\<forall>e \<in> set ?q2. 1 \<le> snd (snd e)" by (simp only: set_map) simp
    show ?thesis
      by (rule ffp_loop_moves[OF _ _ B _ D res]) simp_all
  qed
  with gl show ?thesis unfolding find_farthest_point_def s by (intro exI[of _ gl]) auto
qed


subsection \<open>What generation produces\<close>

text \<open>
  The properties of a generated maze that the claims build on: the grid has the stored
  dimensions (odd, at least 3), the open cells form a tree around the start in which every
  open cell can be reached, the goal is an open cell, the start carries \<open>S\<close>, the goal \<open>G\<close>
  unless it is the start, and every other open cell is blank.
\<close>

definition generated_ok :: "Maze \<Rightarrow> bool" where
  "generated_ok m \<longleftrightarrow>
     3 \<le> rows m \<and> odd (rows m) \<and> 3 \<le> cols m \<and> odd (cols m) \<and>
     grid_shape (maze m) (rows m) (cols m) \<and>
     maze_inv (start m) (open_cells (rows m) (cols m) (maze m)) {} \<and>
     goal m \<in> open_cells (rows m) (cols m) (maze m) \<and>
     cell_at (maze m) (start m) = CHR ''S'' \<and>
     (\<forall>p \<in> open_cells (rows m) (cols m) (maze m).
        p \<noteq> start m \<longrightarrow> cell_at (maze m) p = (if p = goal m then CHR ''G'' else CHR '' '')) \<and>
     (3 < rows m \<or> 3 < cols m \<longrightarrow> goal m \<noteq> start m)"

lemma randrange_odd:
  assumes "3 \<le> n" "odd n"
  shows "\<exists>v. randrange 1 n 2 pick = Inr v \<and> odd v \<and> 1 \<le> v \<and> v < n"
proof -
  let ?k = "(n - 1 + 2 - 1) div 2"
  from assms have k: "0 < ?k" "2 * ?k = n - 1" by presburger+
  have "0 \<le> int pick mod ?k" "int pick mod ?k < ?k" using k(1) by simp_all
  then have "1 + 2 * (int pick mod ?k) < n" "1 \<le> 1 + 2 * (int pick mod ?k)" using k(2) by linarith+
  with k(1) show ?thesis by (simp add: randrange_def Let_def)
qed

lemma grid_shape_replicate:
  assumes "0 \<le> rws" "0 \<le> cls"
  shows "grid_shape (replicate (nat rws) (replicate (nat cls) ch)) rws cls"
  using assms by (simp add: grid_shape_def)

lemma cell_at_replicate:
  "in_grid rws cls p \<Longrightarrow> cell_at (replicate (nat rws) (replicate (nat cls) ch)) p = ch"
  by (simp add: cell_at_def in_grid_def)

lemma open_cells_replicate:
  "open_cells rws cls (replicate (nat rws) (replicate (nat cls) CHR ''#'')) = {}"
  by (auto simp: open_cells_def cell_at_replicate)

lemma maze_inv_init:
  assumes "node_cell s"
  shows "maze_inv s {s} {s}"
proof -
  have na: "\<not> (adjacent s t \<and> node_cell t)" for t
    using assms by (cases s; cases t) (auto simp: adjacent_iff node_cell_def)
  have td: "tree_depth {s} s (\<lambda>_. 0)"
    by (simp add: tree_depth_def adjacent_def)
  show ?thesis
    unfolding maze_inv_def
  proof (intro conjI)
    show "\<forall>b \<in> {s}. \<forall>t. adjacent b t \<and> node_cell t \<longrightarrow> t \<in> {s}" using na by blast
    show "\<exists>dep. tree_depth {s} s dep" using td by blast
  qed (use assms in \<open>simp_all add: node_cell_def\<close>)
qed

declare carve_loop.simps [simp del]

lemma mark_open_cell:
  assumes "grid_shape g rws cls" "(r, c) \<in> open_cells rws cls g" "v \<noteq> CHR ''#''"
  shows "\<exists>g'. set_cell g r c v = Inr g' \<and> grid_shape g' rws cls
          \<and> open_cells rws cls g' = open_cells rws cls g \<and> cell_at g' (r, c) = v
          \<and> (\<forall>q. in_grid rws cls q \<and> q \<noteq> (r, c) \<longrightarrow> cell_at g' q = cell_at g q)"
proof -
  from assms(2) have ig: "in_grid rws cls (r, c)" by (rule open_cells_in_grid)
  from set_cell_open[OF assms(1) ig assms(3)] obtain g' where
    g': "set_cell g r c v = Inr g'" "grid_shape g' rws cls"
    "open_cells rws cls g' = insert (r, c) (open_cells rws cls g)" and
    c: "\<forall>q. in_grid rws cls q \<longrightarrow> cell_at g' q = (if q = (r, c) then v else cell_at g q)"
    by blast
  from g'(3) assms(2) have "open_cells rws cls g' = open_cells rws cls g" by (simp add: insert_absorb)
  moreover from c ig have "cell_at g' (r, c) = v" by simp
  moreover have "\<forall>q. in_grid rws cls q \<and> q \<noteq> (r, c) \<longrightarrow> cell_at g' q = cell_at g q"
    using c by simp
  ultimately show ?thesis using g'(1,2) by blast
qed

lemma lattice_neighbour:
  assumes "odd v" "1 \<le> v" "v < n" "odd n" "3 < (n :: int)"
  shows "v + 2 < n \<or> 0 \<le> v - 2"
  using assms by presburger

lemma generate_solvable_maze_ok:
  assumes dims: "3 \<le> rws" "odd rws" "3 \<le> cls" "odd cls"
  shows "\<exists>m. generate_solvable_maze ch rws cls = Inr m \<and> generated_ok m
           \<and> rows m = rws \<and> cols m = cls"
proof -
  from dims have or1: "rws OR 1 = rws" "cls OR 1 = cls" by (simp_all add: or_one_eq)
  from randrange_odd[OF dims(1,2)] obtain sr where
    sr: "randrange 1 rws 2 (start_row_pick ch) = Inr sr" "odd sr" "1 \<le> sr" "sr < rws" by blast
  from randrange_odd[OF dims(3,4)] obtain sc where
    sc: "randrange 1 cls 2 (start_col_pick ch) = Inr sc" "odd sc" "1 \<le> sc" "sc < cls" by blast
  let ?s = "(sr, sc)"
  let ?g0 = "replicate (nat rws) (replicate (nat cls) CHR ''#'')"
  from sr sc have sg: "in_grid rws cls ?s" and sn: "node_cell ?s"
    by (simp_all add: in_grid_def node_cell_def)
  from dims have shape0: "grid_shape ?g0 rws cls" by (intro grid_shape_replicate) simp_all
  from set_cell_open[OF shape0 sg, of "CHR ''S''"] obtain g1 where
    g1: "set_cell ?g0 sr sc CHR ''S'' = Inr g1" "grid_shape g1 rws cls"
      "open_cells rws cls g1 = {?s}" and
    c1: "\<forall>q. in_grid rws cls q \<longrightarrow> cell_at g1 q = (if q = ?s then CHR ''S'' else cell_at ?g0 q)"
    by (auto simp: open_cells_replicate)
  from c1 sg have s1: "cell_at g1 ?s = CHR ''S''" by simp
  have "carve_inv rws cls ?s g1 (set [?s])"
    unfolding carve_inv_def using g1(2,3) s1 maze_inv_init[OF sn] by simp
  from carve_loop_inv[OF this, of "dir_key ch" 0] obtain g2 where
    g2: "carve_loop rws cls (dir_key ch) 0 g1 [?s] = Inr g2" and inv2: "carve_inv rws cls ?s g2 {}"
    by blast
  let ?O = "open_cells rws cls g2"
  from inv2 have shape2: "grid_shape g2 rws cls" and mi: "maze_inv ?s ?O {}"
    and blank2: "\<forall>p \<in> ?O. p \<noteq> ?s \<longrightarrow> cell_at g2 p = CHR '' ''"
    and full2: "\<forall>p \<in> ?O. node_cell p \<and> p \<notin> {} \<longrightarrow>
        (\<forall>d \<in> set directions.
           in_grid rws cls (fst p + fst d * 2, snd p + snd d * 2) \<longrightarrow>
           (fst p + fst d * 2, snd p + snd d * 2) \<in> ?O)"
    unfolding carve_inv_def by blast+
  from mi have sO: "?s \<in> ?O" and reach: "\<forall>p \<in> ?O. (?s, p) \<in> (grid_step ?O)\<^sup>*"
    unfolding maze_inv_def by blast+
  from mark_open_cell[OF shape2 sO, of "CHR '' ''"] obtain g3 where
    g3: "set_cell g2 sr sc CHR '' '' = Inr g3" "grid_shape g3 rws cls"
      "open_cells rws cls g3 = ?O" "cell_at g3 ?s = CHR '' ''" and
    c3: "\<And>q. in_grid rws cls q \<Longrightarrow> q \<noteq> ?s \<Longrightarrow> cell_at g3 q = cell_at g2 q"
    by auto
  have blank3: "cell_at g3 p = CHR '' ''" if "p \<in> ?O" for p
  proof (cases "p = ?s")
    case True
    with g3(4) show ?thesis by simp
  next
    case False
    with c3[OF open_cells_in_grid[OF that]] blank2 that show ?thesis by simp
  qed
  from find_farthest_point_result[OF g3(2), of ?s] obtain gl where
    gl: "find_farthest_point g3 ?s = Inr gl" "blank_or g3 rws cls ?s gl" and
    moves: "(\<exists>q. adjacent ?s q \<and> in_grid rws cls q \<and> cell_at g3 q = CHR '' '') \<longrightarrow> gl \<noteq> ?s"
    by blast
  have glO: "gl \<in> ?O"
  proof (cases "gl = ?s")
    case True
    with sO show ?thesis by simp
  next
    case False
    with gl(2) have "in_grid rws cls gl" "cell_at g3 gl = CHR '' ''" by (simp_all add: blank_or_def)
    then have "gl \<in> open_cells rws cls g3" by (simp add: open_cells_def)
    with g3(3) show ?thesis by simp
  qed
  obtain gr gc where glp: "gl = (gr, gc)" by (cases gl)
  from glO g3(3) have glO3: "(gr, gc) \<in> open_cells rws cls g3" by (simp add: glp)
  from mark_open_cell[OF g3(2) glO3, of "CHR ''G''"] obtain g4 where
    g4: "set_cell g3 gr gc CHR ''G'' = Inr g4" "grid_shape g4 rws cls"
      "open_cells rws cls g4 = ?O" "cell_at g4 gl = CHR ''G''" and
    c4: "\<And>q. in_grid rws cls q \<Longrightarrow> q \<noteq> gl \<Longrightarrow> cell_at g4 q = cell_at g3 q"
    by (auto simp: g3(3) glp)
  from sO g4(3) have sO4: "?s \<in> open_cells rws cls g4" by simp
  from mark_open_cell[OF g4(2) sO4, of "CHR ''S''"] obtain g5 where
    g5: "set_cell g4 sr sc CHR ''S'' = Inr g5" "grid_shape g5 rws cls"
      "open_cells rws cls g5 = ?O" "cell_at g5 ?s = CHR ''S''" and
    c5: "\<And>q. in_grid rws cls q \<Longrightarrow> q \<noteq> ?s \<Longrightarrow> cell_at g5 q = cell_at g4 q"
    by (auto simp: g4(3))
  let ?m = "\<lparr>rows = rws, cols = cls, maze = g5, start = ?s, goal = gl\<rparr>"
  have gen: "generate_solvable_maze ch rws cls = Inr ?m"
    by (simp add: generate_solvable_maze_def Let_def or1 sr(1) sc(1) g1(1) g2 g3(1) gl(1) glp
        g4(1) g5(1))
  have far: "gl \<noteq> ?s" if big: "3 < rws \<or> 3 < cls"
  proof -
    have "\<exists>d \<in> set directions. in_grid rws cls (sr + fst d * 2, sc + snd d * 2)"
    proof (cases "3 < rws")
      case True
      from lattice_neighbour[OF sr(2,3,4) dims(2) True] show ?thesis
      proof
        assume "sr + 2 < rws"
        with sr sc show ?thesis by (intro bexI[of _ "(1, 0)"]) (simp_all add: in_grid_def directions_def)
      next
        assume "0 \<le> sr - 2"
        with sr sc show ?thesis by (intro bexI[of _ "(- 1, 0)"]) (simp_all add: in_grid_def directions_def)
      qed
    next
      case False
      with big have "3 < cls" by simp
      from lattice_neighbour[OF sc(2,3,4) dims(4) this] show ?thesis
      proof
        assume "sc + 2 < cls"
        with sr sc show ?thesis by (intro bexI[of _ "(0, 1)"]) (simp_all add: in_grid_def directions_def)
      next
        assume "0 \<le> sc - 2"
        with sr sc show ?thesis by (intro bexI[of _ "(0, - 1)"]) (simp_all add: in_grid_def directions_def)
      qed
    qed
    then obtain d where d: "d \<in> set directions" "in_grid rws cls (sr + fst d * 2, sc + snd d * 2)"
      by blast
    let ?t = "(sr + fst d * 2, sc + snd d * 2)"
    from full2 sO sn have "\<forall>d \<in> set directions.
           in_grid rws cls (fst ?s + fst d * 2, snd ?s + snd d * 2) \<longrightarrow>
           (fst ?s + fst d * 2, snd ?s + snd d * 2) \<in> ?O" by blast
    with d have tO: "?t \<in> ?O" by simp
    obtain dr dc where dp: "d = (dr, dc)" by (cases d)
    from d(1) have ts: "?t \<noteq> ?s" unfolding dp directions_iff by auto
    from reach tO have "(?s, ?t) \<in> (grid_step ?O)\<^sup>*" by blast
    then obtain q where "(?s, q) \<in> grid_step ?O"
      using ts by (cases rule: converse_rtranclE) auto
    then have q: "adjacent ?s q" "q \<in> ?O" by (simp_all add: grid_step_def)
    from q(2) have "in_grid rws cls q" "cell_at g3 q = CHR '' ''"
      by (simp_all add: open_cells_in_grid blank3)
    with q(1) moves show ?thesis by blast
  qed
  have cells5: "cell_at g5 p = (if p = gl then CHR ''G'' else CHR '' '')" if "p \<in> ?O" "p \<noteq> ?s" for p
  proof -
    from that(1) have pg: "in_grid rws cls p" by (rule open_cells_in_grid)
    from c5[OF pg that(2)] have e: "cell_at g5 p = cell_at g4 p" .
    show ?thesis
    proof (cases "p = gl")
      case True
      with e g4(4) show ?thesis by simp
    next
      case False
      with e c4[OF pg False] blank3[OF that(1)] show ?thesis by simp
    qed
  qed
  have "generated_ok ?m"
    unfolding generated_ok_def
  proof (intro conjI ballI impI)
    fix p assume "p \<in> open_cells (rows ?m) (cols ?m) (maze ?m)" "p \<noteq> start ?m"
    then have "p \<in> ?O" "p \<noteq> ?s" by (simp_all add: g5(3))
    from cells5[OF this]
    show "cell_at (maze ?m) p = (if p = goal ?m then CHR ''G'' else CHR '' '')" by simp
  next
    assume "3 < rows ?m \<or> 3 < cols ?m"
    then have "3 < rws \<or> 3 < cls" by simp
    from far[OF this] show "goal ?m \<noteq> start ?m" by simp
  qed (use dims g5 mi glO in simp_all)
  with gen show ?thesis by (intro exI[of _ ?m]) simp
qed

lemma init_dim_ok: "2 \<le> n \<Longrightarrow> 3 \<le> init_dim n \<and> odd (init_dim n)"
  unfolding init_dim_def by presburger

lemma Maze_init_ok:
  assumes "2 \<le> rows0" "2 \<le> cols0"
  shows "\<exists>m. Maze_init ch rows0 cols0 = Inr m \<and> generated_ok m
           \<and> rows m = init_dim rows0 \<and> cols m = init_dim cols0"
  unfolding Maze_init_def
  using generate_solvable_maze_ok[of "init_dim rows0" "init_dim cols0" ch]
    init_dim_ok[OF assms(1)] init_dim_ok[OF assms(2)] by blast

lemma randrange_small: "n \<le> 1 \<Longrightarrow> randrange 1 n 2 pick = Inl ValueError"
  by (simp add: randrange_def Let_def)

lemma init_dim_small:
  assumes "n < 2"
  shows "init_dim n OR 1 \<le> 1"
proof (cases "n mod 2 = 1")
  case True
  then have "odd n" by presburger
  with True assms show ?thesis by (simp add: init_dim_def or_one_eq)
next
  case False
  then have "even n" by presburger
  with assms have "n \<le> 0" by presburger
  with False \<open>even n\<close> show ?thesis by (simp add: init_dim_def or_one_eq)
qed

lemma randrange_error: "randrange lo hi step pick = Inl e \<Longrightarrow> e = ValueError"
  by (simp add: randrange_def Let_def split: if_splits)

lemma Maze_init_small:
  assumes "rows0 < 2 \<or> cols0 < 2"
  shows "Maze_init ch rows0 cols0 = Inl ValueError"
proof (cases "rows0 < 2")
  case True
  from randrange_small[OF init_dim_small[OF True]] show ?thesis
    by (simp add: Maze_init_def generate_solvable_maze_def Let_def)
next
  case False
  with assms have c: "cols0 < 2" by simp
  show ?thesis
    using randrange_small[OF init_dim_small[OF c]]
    by (auto simp: Maze_init_def generate_solvable_maze_def Let_def split: sum.splits
        dest: randrange_error)
qed


subsection \<open>Construction\<close>

text \<open>A fixed outcome of the random draws, for concrete runs.\<close>

definition fixed_choices :: choices where
  "fixed_choices = \<lparr>start_row_pick = 0, start_col_pick = 0, dir_key = (\<lambda>k j. j)\<rparr>"

text \<open>
  Claim C7, as stated: construction succeeds for all \<open>rows \<ge> 1\<close> and \<open>cols \<ge> 1\<close>.  With
  \<open>rows = cols = 1\<close> the stored dimensions stay 1 and \<open>random.randrange(1, 1, 2)\<close> raises
  \<open>ValueError\<close>.
\<close>

theorem construction_one_by_one_counterexample:
  "(1 :: int) \<ge> 1 \<and> Maze_init fixed_choices 1 1 = Inl ValueError"
  by (simp add: Maze_init_small)

text \<open>
  Claim C7, amended.  For all \<open>rows \<ge> 2\<close> and \<open>cols \<ge> 2\<close> and every outcome of the random
  draws, the constructor returns a maze: no exception is raised, and the carving loop and
  the farthest-point loop terminate.  With \<open>rows < 2\<close> or \<open>cols < 2\<close> it raises \<open>ValueError\<close>.
\<close>

theorem construction_succeeds:
  "(2 \<le> rows0 \<and> 2 \<le> cols0 \<longrightarrow> (\<exists>m. Maze_init ch rows0 cols0 = Inr m))
   \<and> (rows0 < 2 \<or> cols0 < 2 \<longrightarrow> Maze_init ch rows0 cols0 = Inl ValueError)"
  using Maze_init_ok[of rows0 cols0 ch] Maze_init_small[of rows0 cols0 ch] by blast

theorem construction_succeeds_witness:
  "(2 :: int) \<le> 4 \<and> (2 :: int) \<le> 5
   \<and> Maze_init fixed_choices 4 5
       = Inr \<lparr>rows = 5, cols = 5,
              maze = [''#####'', ''#S  #'', ''# ###'', ''#  G#'', ''#####''],
              start = (1, 1), goal = (3, 3)\<rparr>"
proof -
  from construction_succeeds[of 4 5 fixed_choices] obtain m where
    m: "Maze_init fixed_choices 4 5 = Inr m" by auto
  have "Maze_init fixed_choices 4 5
       = Inr \<lparr>rows = 5, cols = 5,
              maze = [''#####'', ''#S  #'', ''# ###'', ''#  G#'', ''#####''],
              start = (1, 1), goal = (3, 3)\<rparr>"
    by code_simp
  with m show ?thesis by simp
qed

lemma init_dim_eq: "init_dim n = (if odd n then n else n + 1)"
  unfolding init_dim_def by presburger

lemma init_dim_or: "init_dim n OR 1 = init_dim n"
  by (cases "odd n") (simp_all add: init_dim_eq or_one_eq)

lemma Maze_init_InrD:
  assumes "Maze_init ch rows0 cols0 = Inr m"
  shows "2 \<le> rows0 \<and> 2 \<le> cols0 \<and> generated_ok m
         \<and> rows m = init_dim rows0 \<and> cols m = init_dim cols0"
proof -
  from assms Maze_init_small[of rows0 cols0 ch] have "\<not> (rows0 < 2 \<or> cols0 < 2)"
    by auto
  then have b: "2 \<le> rows0" "2 \<le> cols0" by simp_all
  from Maze_init_ok[OF b, of ch] assms show ?thesis using b by auto
qed

text \<open>
  Claim C8.  The dimensions from which the grid is built are the inputs when these are
  odd and the inputs plus one when they are even (the later \<open>|= 1\<close> changes nothing);
  a constructed maze stores these dimensions, and its grid has them.
\<close>

theorem stored_dimensions:
  "init_dim rows0 OR 1 = (if odd rows0 then rows0 else rows0 + 1)
   \<and> (Maze_init ch rows0 cols0 = Inr m \<longrightarrow>
        rows m = (if odd rows0 then rows0 else rows0 + 1)
        \<and> cols m = (if odd cols0 then cols0 else cols0 + 1)
        \<and> int (length (maze m)) = rows m
        \<and> (\<forall>row \<in> set (maze m). int (length row) = cols m))"
proof (intro conjI impI)
  have "init_dim rows0 OR 1 = init_dim rows0" by (rule init_dim_or)
  then show "init_dim rows0 OR 1 = (if odd rows0 then rows0 else rows0 + 1)"
    by (simp only: init_dim_eq[symmetric])
next
  assume a: "Maze_init ch rows0 cols0 = Inr m"
  from Maze_init_InrD[OF a] have r: "rows m = init_dim rows0" and c: "cols m = init_dim cols0"
    and ok: "generated_ok m" by simp_all
  from r show "rows m = (if odd rows0 then rows0 else rows0 + 1)" by (simp only: init_dim_eq)
  from c show "cols m = (if odd cols0 then cols0 else cols0 + 1)" by (simp only: init_dim_eq)
  from ok have "grid_shape (maze m) (rows m) (cols m)" by (simp add: generated_ok_def)
  then show "int (length (maze m)) = rows m" "\<forall>row \<in> set (maze m). int (length row) = cols m"
    by (simp_all add: grid_shape_def)
qed

theorem stored_dimensions_witness:
  "Maze_init fixed_choices 4 5
       = Inr \<lparr>rows = 5, cols = 5,
              maze = [''#####'', ''#S  #'', ''# ###'', ''#  G#'', ''#####''],
              start = (1, 1), goal = (3, 3)\<rparr>
   \<and> (5 :: int) = (if odd (4 :: int) then 4 else 4 + 1)"
proof -
  let ?m = "\<lparr>rows = 5, cols = 5,
              maze = [''#####'', ''#S  #'', ''# ###'', ''#  G#'', ''#####''],
              start = (1, 1), goal = (3, 3)\<rparr>"
  have e: "Maze_init fixed_choices 4 5 = Inr ?m" by code_simp
  from stored_dimensions[of 4 fixed_choices 5 ?m] e
  have "rows ?m = (if odd (4 :: int) then 4 else 4 + 1)" by blast
  with e show ?thesis by simp
qed


subsection \<open>Start, goal and connectivity of a generated maze\<close>

text \<open>The coordinates of the grid that hold a given character.\<close>

definition cells_with :: "Maze \<Rightarrow> char \<Rightarrow> coord set" where
  "cells_with m ch = {p. in_grid (rows m) (cols m) p \<and> cell_at (maze m) p = ch}"

lemma maze_step_grid_step: "maze_step m = grid_step (open_cells (rows m) (cols m) (maze m))"
  by (simp add: maze_step_def grid_step_def passable_open_cells)

lemma generated_start_cell:
  assumes "generated_ok m"
  shows "cells_with m CHR ''S'' = {start m}"
proof -
  let ?O = "open_cells (rows m) (cols m) (maze m)"
  from assms have sO: "start m \<in> ?O" and sS: "cell_at (maze m) (start m) = CHR ''S''"
    and cells: "\<forall>p \<in> ?O. p \<noteq> start m \<longrightarrow>
        cell_at (maze m) p = (if p = goal m then CHR ''G'' else CHR '' '')"
    unfolding generated_ok_def maze_inv_def by blast+
  show ?thesis
  proof (intro set_eqI iffI)
    fix p assume "p \<in> cells_with m CHR ''S''"
    then have p: "in_grid (rows m) (cols m) p" "cell_at (maze m) p = CHR ''S''"
      by (simp_all add: cells_with_def)
    then have "p \<in> ?O" by (simp add: open_cells_def)
    with cells p(2) have "p = start m" by (cases "p = start m") (auto split: if_splits)
    then show "p \<in> {start m}" by simp
  next
    fix p assume "p \<in> {start m}"
    with sO sS show "p \<in> cells_with m CHR ''S''"
      by (simp add: cells_with_def open_cells_in_grid)
  qed
qed

lemma generated_goal_cell:
  assumes "generated_ok m" "goal m \<noteq> start m"
  shows "cells_with m CHR ''G'' = {goal m}"
proof -
  let ?O = "open_cells (rows m) (cols m) (maze m)"
  from assms have gO: "goal m \<in> ?O" and sS: "cell_at (maze m) (start m) = CHR ''S''"
    and cells: "\<forall>p \<in> ?O. p \<noteq> start m \<longrightarrow>
        cell_at (maze m) p = (if p = goal m then CHR ''G'' else CHR '' '')"
    unfolding generated_ok_def by blast+
  show ?thesis
  proof (intro set_eqI iffI)
    fix p assume "p \<in> cells_with m CHR ''G''"
    then have p: "in_grid (rows m) (cols m) p" "cell_at (maze m) p = CHR ''G''"
      by (simp_all add: cells_with_def)
    then have pO: "p \<in> ?O" by (simp add: open_cells_def)
    from p(2) sS have "p \<noteq> start m" by auto
    with cells pO p(2) have "p = goal m" by (cases "p = goal m") auto
    then show "p \<in> {goal m}" by simp
  next
    fix p assume "p \<in> {goal m}"
    with gO cells assms(2) show "p \<in> cells_with m CHR ''G''"
      by (simp add: cells_with_def open_cells_in_grid)
  qed
qed

lemma generated_reachable:
  assumes "generated_ok m" "passable m p"
  shows "reachable m (start m) p"
proof -
  let ?O = "open_cells (rows m) (cols m) (maze m)"
  from assms(1) have "\<forall>p \<in> ?O. (start m, p) \<in> (grid_step ?O)\<^sup>*"
    unfolding generated_ok_def maze_inv_def by blast
  with assms(2) show ?thesis
    by (simp add: reachable_def maze_step_grid_step passable_open_cells)
qed

text \<open>
  Claim C2, as stated: every generated maze has exactly one \<open>G\<close> cell.  The 3 by 3 maze has
  a single open cell; the goal is the start, and the \<open>G\<close> written there is overwritten by
  the \<open>S\<close>.
\<close>

theorem three_by_three_no_goal_counterexample:
  "Maze_init fixed_choices 3 3
     = Inr \<lparr>rows = 3, cols = 3, maze = [''###'', ''#S#'', ''###''], start = (1, 1), goal = (1, 1)\<rparr>
   \<and> CHR ''G'' \<notin> set (concat [''###'', ''#S#'', ''###''])"
  by code_simp

text \<open>
  Claim C2, amended.  Every generated maze has exactly one \<open>S\<close> cell, at its start; every
  cell that is not a wall can be reached from the start by moves through cells that are
  not walls; and when the stored size exceeds 3 by 3, the goal differs from the start and
  the maze has exactly one \<open>G\<close> cell, at its goal.
\<close>

theorem generated_maze_cells:
  assumes "Maze_init ch rows0 cols0 = Inr m"
  shows "cells_with m CHR ''S'' = {start m}
       \<and> (\<forall>p. passable m p \<longrightarrow> reachable m (start m) p)
       \<and> (3 < rows m \<or> 3 < cols m \<longrightarrow> goal m \<noteq> start m \<and> cells_with m CHR ''G'' = {goal m})"
proof -
  from Maze_init_InrD[OF assms] have ok: "generated_ok m" by simp
  then have "3 < rows m \<or> 3 < cols m \<longrightarrow> goal m \<noteq> start m" by (simp add: generated_ok_def)
  with generated_start_cell[OF ok] generated_goal_cell[OF ok] generated_reachable[OF ok]
  show ?thesis by blast
qed

theorem generated_maze_cells_witness:
  "Maze_init fixed_choices 4 5
       = Inr \<lparr>rows = 5, cols = 5,
              maze = [''#####'', ''#S  #'', ''# ###'', ''#  G#'', ''#####''],
              start = (1, 1), goal = (3, 3)\<rparr>
   \<and> cells_with \<lparr>rows = 5, cols = 5,
              maze = [''#####'', ''#S  #'', ''# ###'', ''#  G#'', ''#####''],
              start = (1, 1), goal = (3, 3)\<rparr> CHR ''G'' = {(3, 3)}"
proof -
  let ?m = "\<lparr>rows = 5, cols = 5,
              maze = [''#####'', ''#S  #'', ''# ###'', ''#  G#'', ''#####''],
              start = (1, 1), goal = (3, 3)\<rparr>"
  have e: "Maze_init fixed_choices 4 5 = Inr ?m" by code_simp
  from generated_maze_cells[OF e] have "cells_with ?m CHR ''G'' = {goal ?m}" by simp
  with e show ?thesis by simp
qed


subsection \<open>A search with a reachable goal\<close>

text \<open>The states on the parent chain of a node, from the node up to the root.\<close>

fun chain_states :: "'c node \<Rightarrow> coord list" where
  "chain_states (Node st None a c) = [st]"
| "chain_states (Node st (Some p) a c) = st # chain_states p"

text \<open>The chain starts at \<open>s\<close> and every link is a move of the maze.\<close>

fun chain_ok :: "Maze \<Rightarrow> coord \<Rightarrow> 'c node \<Rightarrow> bool" where
  "chain_ok m s (Node st None a c) \<longleftrightarrow> st = s"
| "chain_ok m s (Node st (Some p) a c) \<longleftrightarrow> (state p, st) \<in> maze_step m \<and> chain_ok m s p"

definition node_ok :: "Maze \<Rightarrow> coord \<Rightarrow> coord set \<Rightarrow> 'c node \<Rightarrow> bool" where
  "node_ok m s es nd \<longleftrightarrow>
     chain_ok m s nd \<and> distinct (chain_states nd) \<and> set (tl (chain_states nd)) \<subseteq> es"

lemma chain_states_hd: "hd (chain_states nd) = state nd" "chain_states nd \<noteq> []"
  by (induction nd rule: chain_states.induct) simp_all

lemma chain_states_Cons: "chain_states nd = state nd # tl (chain_states nd)"
  by (induction nd rule: chain_states.induct) simp_all

lemma length_path_loop: "length (path_loop nd acc) = length acc + depth nd"
  by (induction nd acc rule: path_loop.induct) simp_all

lemma node_ok_mono: "node_ok m s es nd \<Longrightarrow> es \<subseteq> es' \<Longrightarrow> node_ok m s es' nd"
  by (auto simp: node_ok_def)

lemma node_ok_child:
  assumes "node_ok m s es nd" "(state nd, q) \<in> maze_step m" "q \<notin> insert (state nd) es"
  shows "node_ok m s (insert (state nd) es) (Node q (Some nd) a c)"
proof -
  from assms(1) have ok: "chain_ok m s nd" and d: "distinct (chain_states nd)"
    and sub: "set (tl (chain_states nd)) \<subseteq> es" by (simp_all add: node_ok_def)
  have "set (chain_states nd) = insert (state nd) (set (tl (chain_states nd)))"
    by (subst chain_states_Cons) simp
  with sub have s: "set (chain_states nd) \<subseteq> insert (state nd) es" by auto
  with assms(3) have "q \<notin> set (chain_states nd)" by blast
  with ok d s assms(2) show ?thesis by (simp add: node_ok_def)
qed

lemma expand_nodes:
  assumes "add_ok add" "\<forall>n \<in> set fr. P n"
    and "\<forall>(a, q) \<in> set nxt. q \<notin> es \<longrightarrow> P (Node q (Some nd) (Some a) (child_cost (cost nd)))"
  shows "\<forall>n \<in> set (expand add child_cost nd es nxt fr). P n"
  using assms(2,3)
proof (induction nxt arbitrary: fr)
  case Nil
  then show ?case by simp
next
  case (Cons x nxt)
  obtain a q where x: "x = (a, q)" by (cases x)
  show ?case
  proof (cases "\<not> contains_state fr q \<and> q \<notin> es")
    case True
    with Cons.prems x have "\<forall>n \<in> set (add fr (Node q (Some nd) (Some a) (child_cost (cost nd)))). P n"
      by (simp add: add_ok_set[OF assms(1)])
    from Cons.IH[OF this] Cons.prems(2) True x show ?thesis by simp
  next
    case False
    from Cons.IH[OF Cons.prems(1)] Cons.prems(2) False x show ?thesis by auto
  qed
qed

lemma expand_states:
  assumes "add_ok add"
  shows "state ` set fr \<union> (snd ` set nxt - es) \<subseteq> state ` set (expand add child_cost nd es nxt fr)"
proof (induction nxt arbitrary: fr)
  case Nil
  then show ?case by simp
next
  case (Cons x nxt)
  obtain a q where x: "x = (a, q)" by (cases x)
  show ?case
  proof (cases "\<not> contains_state fr q \<and> q \<notin> es")
    case True
    let ?fr = "add fr (Node q (Some nd) (Some a) (child_cost (cost nd)))"
    have "state ` set ?fr = insert q (state ` set fr)" by (simp add: add_ok_set[OF assms])
    with Cons.IH[of ?fr] True x show ?thesis by auto
  next
    case False
    then have "q \<in> state ` set fr \<or> q \<in> es" by (simp add: contains_state_iff)
    with Cons.IH[of fr] False x show ?thesis by auto
  qed
qed

lemma get_next_complete:
  assumes "well_formed m" "get_next m nd = Inr nxt" "(state nd, q) \<in> maze_step m"
  shows "q \<in> snd ` set nxt"
proof -
  obtain r c where st: "state nd = (r, c)" by (cases "state nd")
  from assms(3) have adj: "adjacent (r, c) q" and pq: "passable m q"
    by (simp_all add: maze_step_def st)
  from adj have "q = (r, c - 1) \<or> q = (r, c + 1) \<or> q = (r - 1, c) \<or> q = (r + 1, c)"
    by (simp only: adjacent_iff)
  then obtain a d where ad: "(a, d) \<in> set moves" "q = (r + fst d, c + snd d)"
  proof (elim disjE)
    assume "q = (r, c - 1)"
    then show ?thesis by (intro that[of Left "(0, - 1)"]) (simp_all add: moves_def)
  next
    assume "q = (r, c + 1)"
    then show ?thesis by (intro that[of Right "(0, 1)"]) (simp_all add: moves_def)
  next
    assume "q = (r - 1, c)"
    then show ?thesis by (intro that[of Up "(- 1, 0)"]) (simp_all add: moves_def)
  next
    assume "q = (r + 1, c)"
    then show ?thesis by (intro that[of Down "(1, 0)"]) (simp_all add: moves_def)
  qed
  let ?f = "\<lambda>(a, d). (a, (fst (state nd) + fst d, snd (state nd) + snd d))"
  let ?P = "\<lambda>(a, d). passable m (fst (state nd) + fst d, snd (state nd) + snd d)"
  from assms(2) get_next_filter[OF assms(1), of nd] have nxt: "nxt = map ?f (filter ?P moves)"
    by simp
  from ad pq have "(a, d) \<in> set (filter ?P moves)" by (simp add: st)
  then have "?f (a, d) \<in> set nxt" unfolding nxt by (simp only: set_map) (rule imageI)
  then have "(a, q) \<in> set nxt" using ad(2) by (simp add: st)
  then show ?thesis by force
qed

text \<open>
  The invariant of a search towards a goal \<open>gl\<close>: the frontier invariant, well-formed
  parent chains, the goal not explored, and every move out of an explored state leading
  to an explored state or to the frontier.
\<close>

definition search_inv :: "Maze \<Rightarrow> coord \<Rightarrow> coord \<Rightarrow> coord set \<Rightarrow> 'c search_state \<Rightarrow> bool" where
  "search_inv m s gl R st \<longleftrightarrow>
     frontier_inv R (explored_states st) (frontier st) \<and>
     (\<forall>nd \<in> set (frontier st). node_ok m s (explored_states st) nd) \<and>
     gl \<notin> explored_states st \<and>
     s \<in> explored_states st \<union> state ` set (frontier st) \<and>
     (\<forall>p \<in> explored_states st. \<forall>q. (p, q) \<in> maze_step m \<longrightarrow>
        q \<in> explored_states st \<union> state ` set (frontier st))"

lemma remove_ok_set:
  assumes "remove_ok remove" "remove fr = Inr (nd, fr')" "fr \<noteq> []"
  shows "set fr = insert nd (set fr')"
proof -
  from assms(1,3) obtain nd2 fr2 where "remove fr = Inr (nd2, fr2)"
    "mset fr = add_mset nd2 (mset fr2)" unfolding remove_ok_def by blast
  with assms(2) have "mset fr = add_mset nd (mset fr')" by simp
  then show ?thesis by (metis set_mset_add_mset_insert set_mset_mset)
qed

lemma search_step_found:
  fixes s :: "'c search_state"
  assumes wf: "well_formed (the_maze s)"
    and ops: "add_ok add" "remove_ok remove"
    and inv: "search_inv (the_maze s) st (goal_of (the_maze s)) R s"
    and closed: "\<forall>p q. p \<in> R \<longrightarrow> (p, q) \<in> maze_step (the_maze s) \<longrightarrow> q \<in> R"
    and reach: "(st, goal_of (the_maze s)) \<in> (maze_step (the_maze s))\<^sup>*"
  shows "(\<exists>nd :: 'c node. search_step add remove child_cost goal_of s
              = Return (Inr (butlast (rev (path_loop nd [])), tl (explored s)), the_maze s)
            \<and> state nd = goal_of (the_maze s)
            \<and> node_ok (the_maze s) st (explored_states s) nd)
       \<or> (\<exists>s'. search_step add remove child_cost goal_of s = Continue s'
            \<and> the_maze s' = the_maze s
            \<and> search_inv (the_maze s) st (goal_of (the_maze s)) R s'
            \<and> R - explored_states s' \<subset> R - explored_states s)"
proof -
  let ?m = "the_maze s" and ?es = "explored_states s" and ?fr = "frontier s"
  let ?gl = "goal_of (the_maze s)"
  from inv have finv: "frontier_inv R ?es ?fr"
    and nodes: "\<forall>nd \<in> set ?fr. node_ok ?m st ?es nd"
    and j1: "?gl \<notin> ?es"
    and j2: "st \<in> ?es \<union> state ` set ?fr"
    and j3: "\<forall>p \<in> ?es. \<forall>q. (p, q) \<in> maze_step ?m \<longrightarrow> q \<in> ?es \<union> state ` set ?fr"
    unfolding search_inv_def by blast+
  have ne: "?fr \<noteq> []"
  proof
    assume e: "?fr = []"
    have "q \<in> ?es" if "(st, q) \<in> (maze_step ?m)\<^sup>*" for q
      using that
    proof (induction rule: rtrancl_induct)
      case base
      with j2 e show ?case by simp
    next
      case (step y z)
      from j3 step(3,2) have "z \<in> ?es \<union> state ` set ?fr" by blast
      with e show ?case by simp
    qed
    with reach j1 show False by blast
  qed
  from finv have dist: "distinct (map state ?fr)" by (simp add: frontier_inv_def)
  from remove_okD[OF ops(2) ne dist] obtain nd fr where
    rem: "remove ?fr = Inr (nd, fr)" and nd: "nd \<in> set ?fr"
    and sub: "set fr \<subseteq> set ?fr" and dfr: "distinct (map state fr)"
    and fresh: "state nd \<notin> state ` set fr"
    by blast
  from remove_ok_set[OF ops(2) rem ne] have setfr: "set ?fr = insert nd (set fr)" .
  from finv nd have ndR: "state nd \<in> R" and ndE: "state nd \<notin> ?es"
    by (auto simp: frontier_inv_def)
  from nodes nd have ndok: "node_ok ?m st ?es nd" by blast
  show ?thesis
  proof (cases "state nd = ?gl")
    case True
    with ne rem have "search_step add remove child_cost goal_of s
              = Return (Inr (butlast (rev (path_loop nd [])), tl (explored s)), ?m)"
      by (simp add: search_step_def frontier_empty_def)
    with True ndok have "search_step add remove child_cost goal_of s
              = Return (Inr (butlast (rev (path_loop nd [])), tl (explored s)), ?m)
            \<and> state nd = ?gl \<and> node_ok ?m st ?es nd" by (intro conjI)
    then have "\<exists>nd :: 'c node. search_step add remove child_cost goal_of s
              = Return (Inr (butlast (rev (path_loop nd [])), tl (explored s)), ?m)
            \<and> state nd = ?gl \<and> node_ok ?m st ?es nd" by (rule exI)
    then show ?thesis by (rule disjI1)
  next
    case False
    from get_next_total[OF wf] obtain nxt where nxt: "get_next ?m nd = Inr nxt" by blast
    let ?es' = "insert (state nd) ?es"
    let ?fr' = "expand add child_cost nd ?es' nxt fr"
    let ?s' = "s\<lparr>frontier := ?fr', explored_states := ?es', explored := explored s @ [state nd]\<rparr>"
    have step: "search_step add remove child_cost goal_of s = Continue ?s'"
      using ne rem False nxt by (simp add: search_step_def frontier_empty_def)
    have nxtR: "snd ` set nxt \<subseteq> R"
    proof
      fix q assume "q \<in> snd ` set nxt"
      then obtain a where "(a, q) \<in> set nxt" by force
      from get_next_steps[OF wf nxt this] closed ndR show "q \<in> R" by blast
    qed
    have finv0: "frontier_inv R ?es' fr"
      unfolding frontier_inv_def
    proof (intro conjI ballI)
      show "distinct (map state fr)" by (rule dfr)
      fix n assume n: "n \<in> set fr"
      with sub finv show "state n \<in> R" by (auto simp: frontier_inv_def)
      from n fresh have "state n \<noteq> state nd" by (metis imageI)
      moreover from n sub finv have "state n \<notin> ?es" by (auto simp: frontier_inv_def)
      ultimately show "state n \<notin> ?es'" by simp
    qed
    from expand_inv[OF ops(1) finv0 nxtR] have finv': "frontier_inv R ?es' ?fr'" .
    have nodes0: "\<forall>n \<in> set fr. node_ok ?m st ?es' n"
    proof
      fix n assume "n \<in> set fr"
      with sub nodes have "node_ok ?m st ?es n" by blast
      then show "node_ok ?m st ?es' n" by (rule node_ok_mono) (rule subset_insertI)
    qed
    have children: "\<forall>(a, q) \<in> set nxt. q \<notin> ?es' \<longrightarrow>
        node_ok ?m st ?es' (Node q (Some nd) (Some a) (child_cost (cost nd)))"
    proof
      fix x assume x: "x \<in> set nxt"
      obtain a q where xa: "x = (a, q)" by (cases x)
      have "q \<notin> ?es' \<longrightarrow> node_ok ?m st ?es' (Node q (Some nd) (Some a) (child_cost (cost nd)))"
      proof
        assume q: "q \<notin> ?es'"
        from x xa have aq: "(a, q) \<in> set nxt" by simp
        from get_next_steps[OF wf nxt aq] have "(state nd, q) \<in> maze_step ?m" .
        from node_ok_child[OF ndok this q]
        show "node_ok ?m st ?es' (Node q (Some nd) (Some a) (child_cost (cost nd)))" .
      qed
      then show "case x of (a, q) \<Rightarrow> q \<notin> ?es' \<longrightarrow>
          node_ok ?m st ?es' (Node q (Some nd) (Some a) (child_cost (cost nd)))"
        by (simp add: xa)
    qed
    from expand_nodes[where P = "node_ok ?m st ?es'" and es = ?es' and nd = nd
        and child_cost = child_cost, OF ops(1) nodes0 children]
    have nodes': "\<forall>n \<in> set ?fr'. node_ok ?m st ?es' n" .
    from expand_states[OF ops(1), of fr nxt ?es' child_cost nd]
    have sup: "state ` set fr \<union> (snd ` set nxt - ?es') \<subseteq> state ` set ?fr'" .
    have old: "q \<in> ?es' \<union> state ` set ?fr'" if "q \<in> ?es \<union> state ` set ?fr" for q
    proof -
      from that setfr have "q \<in> ?es \<or> q = state nd \<or> q \<in> state ` set fr" by auto
      with sup show ?thesis by blast
    qed
    have j1': "?gl \<notin> ?es'" using j1 False by auto
    have j2': "st \<in> ?es' \<union> state ` set ?fr'" using j2 old by blast
    have j3': "\<forall>p \<in> ?es'. \<forall>q. (p, q) \<in> maze_step ?m \<longrightarrow> q \<in> ?es' \<union> state ` set ?fr'"
    proof (intro ballI allI impI)
      fix p q assume p: "p \<in> ?es'" and pq: "(p, q) \<in> maze_step ?m"
      show "q \<in> ?es' \<union> state ` set ?fr'"
      proof (cases "p = state nd")
        case True
        with pq have "q \<in> snd ` set nxt" using get_next_complete[OF wf nxt] by simp
        with sup show ?thesis by blast
      next
        case False
        with p have "p \<in> ?es" by simp
        with j3 pq have "q \<in> ?es \<union> state ` set ?fr" by blast
        then show ?thesis by (rule old)
      qed
    qed
    have sel: "frontier ?s' = ?fr'" "explored_states ?s' = ?es'" "the_maze ?s' = ?m" by simp_all
    have si: "search_inv ?m st ?gl R ?s'"
      unfolding search_inv_def sel
      by (intro conjI) (rule finv' nodes' j1' j2' j3')+
    have "R - ?es' \<subset> R - ?es" using ndR ndE by blast
    then have ps: "R - explored_states ?s' \<subset> R - ?es" by (simp only: sel)
    from step sel(3) si ps
    have "search_step add remove child_cost goal_of s = Continue ?s'
            \<and> the_maze ?s' = ?m \<and> search_inv ?m st ?gl R ?s'
            \<and> R - explored_states ?s' \<subset> R - ?es" by (intro conjI)
    then have "\<exists>s'. search_step add remove child_cost goal_of s = Continue s'
            \<and> the_maze s' = ?m \<and> search_inv ?m st ?gl R s'
            \<and> R - explored_states s' \<subset> R - ?es" by (rule exI[of _ ?s'])
    then show ?thesis by (rule disjI2)
  qed
qed

lemma search_loop_finds:
  fixes s :: "'c search_state"
  assumes "finite R"
    and wf: "well_formed (the_maze s)"
    and ops: "add_ok add" "remove_ok remove"
    and inv: "search_inv (the_maze s) st (goal_of (the_maze s)) R s"
    and closed: "\<forall>p q. p \<in> R \<longrightarrow> (p, q) \<in> maze_step (the_maze s) \<longrightarrow> q \<in> R"
    and reach: "(st, goal_of (the_maze s)) \<in> (maze_step (the_maze s))\<^sup>*"
  shows "\<exists>(nd :: 'c node) e. search_loop add remove child_cost goal_of s
              = Some (Inr (butlast (rev (path_loop nd [])), e), the_maze s)
            \<and> state nd = goal_of (the_maze s)
            \<and> chain_ok (the_maze s) st nd \<and> distinct (chain_states nd)"
  using wf inv closed reach
proof (induction "card (R - explored_states s)" arbitrary: s rule: less_induct)
  case less
  note found = search_step_found[where goal_of = goal_of and child_cost = child_cost and s = s
      and R = R and add = add and remove = remove and st = st,
      OF less.prems(1) ops less.prems(2,3,4)]
  from found show ?case
  proof
    assume "\<exists>nd :: 'c node. search_step add remove child_cost goal_of s
              = Return (Inr (butlast (rev (path_loop nd [])), tl (explored s)), the_maze s)
            \<and> state nd = goal_of (the_maze s)
            \<and> node_ok (the_maze s) st (explored_states s) nd"
    then obtain nd :: "'c node" where
      r: "search_step add remove child_cost goal_of s
              = Return (Inr (butlast (rev (path_loop nd [])), tl (explored s)), the_maze s)" and
      g: "state nd = goal_of (the_maze s)" and
      ok: "node_ok (the_maze s) st (explored_states s) nd" by blast
    from r have "search_loop add remove child_cost goal_of s
              = Some (Inr (butlast (rev (path_loop nd [])), tl (explored s)), the_maze s)"
      by (subst search_loop.simps) simp
    with g ok have "search_loop add remove child_cost goal_of s
              = Some (Inr (butlast (rev (path_loop nd [])), tl (explored s)), the_maze s)
            \<and> state nd = goal_of (the_maze s)
            \<and> chain_ok (the_maze s) st nd \<and> distinct (chain_states nd)"
      by (simp add: node_ok_def)
    then show ?thesis by (intro exI[of _ nd] exI[of _ "tl (explored s)"])
  next
    assume "\<exists>s'. search_step add remove child_cost goal_of s = Continue s'
            \<and> the_maze s' = the_maze s
            \<and> search_inv (the_maze s) st (goal_of (the_maze s)) R s'
            \<and> R - explored_states s' \<subset> R - explored_states s"
    then obtain s' where
      c: "search_step add remove child_cost goal_of s = Continue s'" and
      mz: "the_maze s' = the_maze s" and
      si: "search_inv (the_maze s) st (goal_of (the_maze s)) R s'" and
      ps: "R - explored_states s' \<subset> R - explored_states s" by blast
    from assms(1) ps have lt: "card (R - explored_states s') < card (R - explored_states s)"
      by (intro psubset_card_mono) auto
    from less.hyps[OF lt] less.prems mz si
    obtain nd :: "'c node" and e where
      "search_loop add remove child_cost goal_of s'
              = Some (Inr (butlast (rev (path_loop nd [])), e), the_maze s)
            \<and> state nd = goal_of (the_maze s)
            \<and> chain_ok (the_maze s) st nd \<and> distinct (chain_states nd)"
      by auto
    moreover from c have "search_loop add remove child_cost goal_of s
        = search_loop add remove child_cost goal_of s'"
      by (subst search_loop.simps) simp
    ultimately have "search_loop add remove child_cost goal_of s
              = Some (Inr (butlast (rev (path_loop nd [])), e), the_maze s)
            \<and> state nd = goal_of (the_maze s)
            \<and> chain_ok (the_maze s) st nd \<and> distinct (chain_states nd)"
      by simp
    then show ?thesis by (intro exI[of _ nd] exI[of _ e])
  qed
qed

lemma search_finds:
  assumes wf: "well_formed m" and ops: "add_ok add" "remove_ok remove"
    and reach: "reachable m st (goal_of m)"
  shows "\<exists>(nd :: 'c node) e.
            search_loop add remove child_cost goal_of (init_state add (c0 :: 'c) st m)
              = Some (Inr (butlast (rev (path_loop nd [])), e), m)
            \<and> state nd = goal_of m \<and> chain_ok m st nd \<and> distinct (chain_states nd)"
proof -
  let ?R = "{q. reachable m st q}"
  let ?s = "init_state add c0 st m"
  let ?root = "Node st None None c0"
  have mz: "the_maze ?s = m" and fr: "frontier ?s = add [] ?root"
    and es: "explored_states ?s = {}" by (simp_all add: init_state_def)
  have "st \<in> ?R" by (simp add: reachable_def)
  from init_frontier_inv[OF ops(1) this, of c0]
  have finv: "frontier_inv ?R {} (add [] ?root)" .
  have setfr: "set (add [] ?root) = {?root}" by (simp add: add_ok_set[OF ops(1)])
  have "search_inv m st (goal_of m) ?R ?s"
    unfolding search_inv_def fr es using finv setfr by (simp add: node_ok_def)
  then have inv: "search_inv (the_maze ?s) st (goal_of (the_maze ?s)) ?R ?s" by (simp only: mz)
  have closed: "\<forall>p q. p \<in> ?R \<longrightarrow> (p, q) \<in> maze_step (the_maze ?s) \<longrightarrow> q \<in> ?R"
    unfolding mz by (auto simp: reachable_def intro: rtrancl_into_rtrancl)
  have wf': "well_formed (the_maze ?s)" using wf by (simp only: mz)
  have reach': "(st, goal_of (the_maze ?s)) \<in> (maze_step (the_maze ?s))\<^sup>*"
    using reach by (simp only: mz reachable_def)
  from search_loop_finds[where s = ?s and R = ?R and goal_of = goal_of and st = st
      and add = add and remove = remove and child_cost = child_cost,
      OF finite_reachable wf' ops inv closed reach']
  show ?thesis by (simp only: mz)
qed


subsection \<open>Paths in a generated maze\<close>

text \<open>
  The graph-theoretic distance from the start to the goal: the least number of moves,
  each to an adjacent cell that is not a wall, that lead from the one to the other.
\<close>

definition shortest_len :: "Maze \<Rightarrow> nat" where
  "shortest_len m = (LEAST n. (start m, goal m) \<in> maze_step m ^^ n)"

lemma chain_walk: "chain_ok m s nd \<Longrightarrow> (s, state nd) \<in> maze_step m ^^ depth nd"
proof (induction m s nd rule: chain_ok.induct)
  case (1 m s st a c)
  then show ?case by simp
next
  case (2 m s st p a c)
  then show ?case by (auto intro: relcompI)
qed

lemma chain_in_open:
  assumes "maze_step m = grid_step opn" "s \<in> opn"
  shows "chain_ok m s nd \<Longrightarrow> state nd \<in> opn"
  using assms by (induction nd rule: chain_states.induct) (auto simp: grid_step_def)

lemma walk_depth_bound:
  assumes tree: "tree_depth opn s dep" and sO: "s \<in> opn"
  shows "(s, q) \<in> grid_step opn ^^ n \<Longrightarrow> q \<in> opn \<and> dep q \<le> n"
proof (induction n arbitrary: q)
  case 0
  with tree sO show ?case by (simp add: tree_depth_def)
next
  case (Suc n)
  then obtain y where y: "(s, y) \<in> grid_step opn ^^ n" and yq: "(y, q) \<in> grid_step opn"
    by auto
  from Suc.IH[OF y] have yO: "y \<in> opn" and dy: "dep y \<le> n" by simp_all
  from yq have a: "adjacent y q" and qO: "q \<in> opn" by (simp_all add: grid_step_def)
  from tree yO qO a have "dep q = Suc (dep y) \<or> dep y = Suc (dep q)"
    unfolding tree_depth_def by blast
  with dy qO show ?case by auto
qed

lemma tree_chain_depth:
  assumes tree: "tree_depth opn s dep" and st: "maze_step m = grid_step opn" and sO: "s \<in> opn"
  shows "chain_ok m s nd \<Longrightarrow> distinct (chain_states nd) \<Longrightarrow>
     dep (state nd) = depth nd
     \<and> (case parent nd of None \<Rightarrow> True | Some p \<Rightarrow> dep (state p) = depth p)"
proof (induction nd rule: chain_states.induct)
  case (1 q a c)
  with tree show ?case by (simp add: tree_depth_def)
next
  case (2 q p a c)
  from "2.prems" have cp: "chain_ok m s p" and pq: "(state p, q) \<in> maze_step m"
    and dp: "distinct (chain_states p)" and qn: "q \<notin> set (chain_states p)"
    by simp_all
  from "2.IH"[OF cp dp]
  have ih: "dep (state p) = depth p"
    and ihp: "case parent p of None \<Rightarrow> True | Some pp \<Rightarrow> dep (state pp) = depth pp"
    by simp_all
  from tree have t2: "\<And>x y. x \<in> opn \<Longrightarrow> y \<in> opn \<Longrightarrow> adjacent x y \<Longrightarrow>
                 dep y = Suc (dep x) \<or> dep x = Suc (dep y)"
    and t3: "\<And>x y z. x \<in> opn \<Longrightarrow> y \<in> opn \<Longrightarrow> z \<in> opn \<Longrightarrow> adjacent x y \<Longrightarrow> adjacent x z \<Longrightarrow>
                  dep x = Suc (dep y) \<Longrightarrow> dep x = Suc (dep z) \<Longrightarrow> y = z"
    unfolding tree_depth_def by blast+
  from chain_in_open[OF st sO cp] have pO: "state p \<in> opn" .
  from pq have apq: "adjacent (state p) q" and qO: "q \<in> opn" by (simp_all add: st grid_step_def)
  have "dep (state p) \<noteq> Suc (dep q)"
  proof
    assume bad: "dep (state p) = Suc (dep q)"
    show False
    proof (cases p)
      case (Node sp par ap cp')
      show ?thesis
      proof (cases par)
        case None
        with Node cp have "sp = s" by simp
        with Node tree bad show ?thesis by (simp add: tree_depth_def)
      next
        case (Some pp)
        with Node cp have cpp: "chain_ok m s pp" and ppp: "(state pp, sp) \<in> maze_step m"
          by simp_all
        from chain_in_open[OF st sO cpp] have ppO: "state pp \<in> opn" .
        from ppp have "adjacent (state pp) sp" by (simp add: st grid_step_def)
        then have a2: "adjacent (state p) (state pp)" by (simp add: Node adjacent_sym)
        from ih ihp Node Some have "dep (state p) = Suc (dep (state pp))" by simp
        from t3[OF pO qO ppO apq a2 bad this] have "q = state pp" .
        moreover have "state pp \<in> set (chain_states p)"
          using Node Some chain_states_Cons[of pp] by (metis chain_states.simps(2) list.set_intros)
        ultimately show ?thesis using qn by simp
      qed
    qed
  qed
  with t2[OF pO qO apq] have "dep q = Suc (dep (state p))" by simp
  with ih show ?case by simp
qed

lemma length_returned_path: "length (butlast (rev (path_loop nd []))) = depth nd - 1"
  by (simp add: length_path_loop)

lemma generated_found_depth:
  assumes ok: "generated_ok m"
    and c: "chain_ok m (start m) nd" and d: "distinct (chain_states nd)"
    and g: "state nd = goal m"
  shows "depth nd = shortest_len m"
proof -
  let ?O = "open_cells (rows m) (cols m) (maze m)"
  from ok obtain dep where tree: "tree_depth ?O (start m) dep" and sO: "start m \<in> ?O"
    unfolding generated_ok_def maze_inv_def by blast
  note st = maze_step_grid_step[of m]
  from tree_chain_depth[OF tree st sO c d] g have dg: "dep (goal m) = depth nd" by simp
  from chain_walk[OF c] g have w: "(start m, goal m) \<in> maze_step m ^^ depth nd" by simp
  have "(LEAST n. (start m, goal m) \<in> maze_step m ^^ n) = depth nd"
  proof (rule Least_equality)
    show "(start m, goal m) \<in> maze_step m ^^ depth nd" by (rule w)
    fix n assume "(start m, goal m) \<in> maze_step m ^^ n"
    then have "(start m, goal m) \<in> grid_step ?O ^^ n" by (simp only: st)
    from walk_depth_bound[OF tree sO this] dg show "depth nd \<le> n" by simp
  qed
  then show ?thesis by (simp add: shortest_len_def)
qed

lemma generated_search_length:
  assumes ok: "generated_ok m" and ops: "add_ok add" "remove_ok remove"
    and gl: "goal_of m = goal m"
  shows "\<exists>p e. search_loop add remove child_cost goal_of (init_state add (c0 :: 'c) (start m) m)
              = Some (Inr (p, e), m)
            \<and> length p = shortest_len m - 1"
proof -
  from ok have wf: "well_formed m" and gO: "passable m (goal m)"
    by (simp_all add: generated_ok_def grid_shape_well_formed passable_open_cells)
  from generated_reachable[OF ok gO] gl have r: "reachable m (start m) (goal_of m)" by simp
  from search_finds[where goal_of = goal_of and child_cost = child_cost and ?c0.0 = c0,
      OF wf ops r] obtain nd :: "'c node" and e where
    res: "search_loop add remove child_cost goal_of (init_state add c0 (start m) m)
              = Some (Inr (butlast (rev (path_loop nd [])), e), m)" and
    nd: "state nd = goal_of m" "chain_ok m (start m) nd" "distinct (chain_states nd)"
    by blast
  from generated_found_depth[OF ok nd(2,3)] nd(1) gl have "depth nd = shortest_len m" by simp
  then have "length (butlast (rev (path_loop nd []))) = shortest_len m - 1"
    by (simp only: length_returned_path)
  with res show ?thesis by blast
qed

lemma generated_bfs_astar:
  assumes "Maze_init ch rows0 cols0 = Inr m"
  shows "\<exists>p1 e1 p2 e2.
           breadth_first_search (start m) m = Some (Inr (p1, e1), m)
         \<and> astar_first_search (start m) m = Some (Inr (p2, e2), m)
         \<and> length p1 = length p2
         \<and> length p1 = shortest_len m - 1"
proof -
  from Maze_init_InrD[OF assms] have ok: "generated_ok m" by simp
  from generated_search_length[OF ok add_ok_stack remove_ok_queue, of get_goal "\<lambda>u. u" "()"]
  obtain p1 e1 where
    b: "breadth_first_search (start m) m = Some (Inr (p1, e1), m)" and
    l1: "length p1 = shortest_len m - 1"
    by (auto simp: breadth_first_search_def get_goal_def)
  from generated_search_length[OF ok add_ok_priority remove_ok_queue,
      of "\<lambda>_. get_goal m" cumulative_cost_function "get_goal m" "\<lambda>c. c + 1" 0]
  obtain p2 e2 where
    a: "astar_first_search (start m) m = Some (Inr (p2, e2), m)" and
    l2: "length p2 = shortest_len m - 1"
    by (auto simp: astar_first_search_def get_goal_def Let_def)
  from b a l1 l2 show ?thesis by simp
qed

text \<open>A generated 5 by 5 maze, for concrete runs.\<close>

definition sample_maze :: Maze where
  "sample_maze =
     \<lparr>rows = 5, cols = 5,
      maze = [''#####'', ''#S  #'', ''# ###'', ''#  G#'', ''#####''],
      start = (1, 1), goal = (3, 3)\<rparr>"

lemma sample_maze_generated: "Maze_init fixed_choices 4 5 = Inr sample_maze"
  by code_simp

lemma sample_maze_bfs:
  "breadth_first_search (1, 1) sample_maze
     = Some (Inr ([(Some Down, (2, 1)), (Some Down, (3, 1)), (Some Right, (3, 2))],
                  [(1, 2), (2, 1), (1, 3), (3, 1), (3, 2)]), sample_maze)"
  by code_simp

lemma sample_maze_shortest: "shortest_len sample_maze = 4"
proof -
  from generated_bfs_astar[OF sample_maze_generated] obtain p1 e1 where
    "breadth_first_search (start sample_maze) sample_maze = Some (Inr (p1, e1), sample_maze)"
    "length p1 = shortest_len sample_maze - 1" by blast
  moreover have "start sample_maze = (1, 1)" by (simp add: sample_maze_def)
  ultimately have "length p1 = 3" "length p1 = shortest_len sample_maze - 1"
    using sample_maze_bfs by auto
  then show ?thesis by simp
qed

text \<open>
  Claim C1, as stated: the length of the returned paths is the shortest-path length from
  start to goal.  In the generated maze \<open>sample_maze\<close> the goal is four moves from the start,
  and breadth-first search returns a path of three steps: the step onto the goal is cut
  off by \<open>path[:-1]\<close>.
\<close>

theorem returned_path_length_counterexample:
  "Maze_init fixed_choices 4 5 = Inr sample_maze
   \<and> breadth_first_search (start sample_maze) sample_maze
       = Some (Inr ([(Some Down, (2, 1)), (Some Down, (3, 1)), (Some Right, (3, 2))],
                    [(1, 2), (2, 1), (1, 3), (3, 1), (3, 2)]), sample_maze)
   \<and> length [(Some Down, (2 :: int, 1 :: int)), (Some Down, (3, 1)), (Some Right, (3, 2))]
       \<noteq> shortest_len sample_maze"
proof -
  have "start sample_maze = (1, 1)" by (simp add: sample_maze_def)
  with sample_maze_generated sample_maze_bfs sample_maze_shortest show ?thesis by simp
qed

text \<open>
  Claim C1, amended.  On every generated maze, \<open>breadth_first_search\<close> and
  \<open>astar_first_search\<close> from the start both return a path, the two paths have equal length,
  and that length is the shortest-path length from start to goal less one (the step onto
  the goal is not part of the returned path), and 0 when the goal is the start.
\<close>

theorem generated_maze_path_lengths:
  assumes "Maze_init ch rows0 cols0 = Inr m"
  shows "\<exists>p1 e1 p2 e2.
           breadth_first_search (start m) m = Some (Inr (p1, e1), m)
         \<and> astar_first_search (start m) m = Some (Inr (p2, e2), m)
         \<and> length p1 = length p2
         \<and> length p1 = shortest_len m - 1"
  using assms by (rule generated_bfs_astar)

theorem generated_maze_path_lengths_witness:
  "Maze_init fixed_choices 4 5 = Inr sample_maze
   \<and> (\<exists>p2 e2. astar_first_search (start sample_maze) sample_maze = Some (Inr (p2, e2), sample_maze)
         \<and> length p2 = 3)"
proof -
  from generated_maze_path_lengths[OF sample_maze_generated] obtain p1 e1 p2 e2 where
    b: "breadth_first_search (start sample_maze) sample_maze = Some (Inr (p1, e1), sample_maze)" and
    a: "astar_first_search (start sample_maze) sample_maze = Some (Inr (p2, e2), sample_maze)" and
    l: "length p1 = length p2" by blast
  have "start sample_maze = (1, 1)" by (simp add: sample_maze_def)
  with b sample_maze_bfs have "length p1 = 3" by auto
  with l a sample_maze_generated show ?thesis by simp
qed

end
